theory Spec2Isabelle
  imports Complex_Main "HOL-Library.Product_Lexorder"
begin

section \<open>SourceDetect: decoding, proximity clustering, grouping and identities\<close>

text \<open>
  A shallow embedding of \<^verbatim>\<open>src/sourcedetect/sourcedetect.py\<close>: the methods
  \<^verbatim>\<open>detect\<close>, \<^verbatim>\<open>close_detect\<close>, \<^verbatim>\<open>unique_detect\<close> and
  \<^verbatim>\<open>group_and_id\<close> of the class \<^verbatim>\<open>SourceDetect\<close>.

  Pixel values and network outputs are floating-point numbers, modelled by the real
  numbers they denote: comparisons are those of the source. The arithmetic on them
  (\<^verbatim>\<open>mx * grid_size + x1\<close>, \<^verbatim>\<open>px += 2\<close>) rounds its result to the float format;
  the rounding is the parameter \<open>rnd\<close> of the model (the identity for exact arithmetic,
  \<open>binary_round 24\<close> and \<open>binary_round 53\<close> below for numpy's float32 and float64).
  It is the format in which numpy evaluates an operation between a network output and a
  Python number: that of the network output (float32 for the outputs of the model) under
  numpy 2, float64 under numpy 1. A Python number is converted to this format first, which
  rounds it; this changes the caller's \<^verbatim>\<open>threshold\<close>, and leaves alone the constants
  \<open>2\<close>, \<open>1.5\<close>, \<open>7.5\<close> and \<open>10\<close> of the source, which are floats of every format, and a
  threshold that is a float of the format.
  Python integers are \<^typ>\<open>int\<close>, positions are pairs of integers ordered
  lexicographically, as Python orders tuples.
\<close>

subsection \<open>Data\<close>

type_synonym coord = "int \<times> int"

datatype failure = IndexError | KeyError | ValueError | Diverges

text \<open>
  One frame of \<^verbatim>\<open>self.flux\<close>: a two-dimensional array (the trailing channel axis of
  length one is dropped). \<open>pixel\<close> is read only inside the bounds.
\<close>

record image =
  nrows :: nat
  ncols :: nat
  pixel :: "int \<Rightarrow> int \<Rightarrow> real"

text \<open>The eight channels of one grid cell of \<^verbatim>\<open>self.y[a][my][mx]\<close>.\<close>

record cell =
  prob :: real
  x1 :: real
  y1 :: real
  x2 :: real
  y2 :: real
  bright :: real
  dim :: real
  trash :: real

text \<open>The prediction grid of one frame, of shape \<open>(grows, gcols, 8)\<close>; \<open>gcell my mx\<close>.\<close>

record grid =
  grows :: nat
  gcols :: nat
  gcell :: "nat \<Rightarrow> nat \<Rightarrow> cell"

datatype sign = positive | negative

text \<open>
  The values stored in \<^verbatim>\<open>variable_flag\<close>: \<^verbatim>\<open>1*(bright>dim)\<close> is an integer,
  \<^verbatim>\<open>True\<close> and \<^verbatim>\<open>False\<close> are booleans.
\<close>

datatype pyval = PyInt int | PyBool bool

fun py_num :: "pyval \<Rightarrow> int" where
  "py_num (PyInt n) = n"
| "py_num (PyBool b) = (if b then 1 else 0)"

definition py_ne :: "pyval \<Rightarrow> pyval \<Rightarrow> bool" where
  "py_ne v w = (py_num v \<noteq> py_num w)"

fun is_bool :: "pyval \<Rightarrow> bool" where
  "is_bool (PyBool b) = True"
| "is_bool (PyInt n) = False"

subsection \<open>detect: one grid cell\<close>

text \<open>Python's \<^verbatim>\<open>int()\<close> of a float truncates towards zero.\<close>

definition py_int :: "real \<Rightarrow> int" where
  "py_int x = (if x < 0 then \<lceil>x\<rceil> else \<lfloor>x\<rfloor>)"

text \<open>
  The four \<^verbatim>\<open>while\<close> loops of lines 257-264. A loop that does not return has the
  value \<open>None\<close>.
\<close>

partial_function (option) clamp_low :: "(real \<Rightarrow> real) \<Rightarrow> real \<Rightarrow> real option" where
  "clamp_low rnd p = (if py_int p < 2 then clamp_low rnd (rnd (p + 2)) else Some p)"

partial_function (option) clamp_high :: "(real \<Rightarrow> real) \<Rightarrow> real \<Rightarrow> real option" where
  "clamp_high rnd p = (if py_int p > 509 then clamp_high rnd (rnd (p - 2)) else Some p)"

definition clamp :: "(real \<Rightarrow> real) \<Rightarrow> real \<Rightarrow> real \<Rightarrow> (real \<times> real) option" where
  "clamp rnd px py =
    Option.bind (clamp_low rnd py) (\<lambda>py1.
    Option.bind (clamp_low rnd px) (\<lambda>px1.
    Option.bind (clamp_high rnd py1) (\<lambda>py2.
    Option.bind (clamp_high rnd px1) (\<lambda>px2. Some (px2, py2)))))"

text \<open>
  Indexing \<^verbatim>\<open>self.flux[a][r, c]\<close>: a negative index counts from the end, an index out
  of range raises.
\<close>

definition np_index :: "nat \<Rightarrow> int \<Rightarrow> failure + int" where
  "np_index n i =
    (let j = (if i < 0 then i + int n else i)
     in if 0 \<le> j \<and> j < int n then Inr j else Inl IndexError)"

definition getitem :: "image \<Rightarrow> int \<Rightarrow> int \<Rightarrow> failure + real" where
  "getitem img r c =
    (case np_index (nrows img) r of Inl e \<Rightarrow> Inl e | Inr i \<Rightarrow>
     case np_index (ncols img) c of Inl e \<Rightarrow> Inl e | Inr j \<Rightarrow> Inr (pixel img i j))"

text \<open>
  The indices selected by the slice \<^verbatim>\<open>lo:hi\<close> on an axis of length \<open>n\<close>: bounds are
  clipped, never an error.
\<close>

definition slice_norm :: "nat \<Rightarrow> int \<Rightarrow> int" where
  "slice_norm n i = (if i < 0 then max 0 (i + int n) else min i (int n))"

definition slice :: "nat \<Rightarrow> int \<Rightarrow> int \<Rightarrow> int list" where
  "slice n lo hi = [slice_norm n lo .. slice_norm n hi - 1]"

text \<open>\<^verbatim>\<open>self.flux[a][r-k:r+k+1, c-k:c+k+1]\<close>, as a list of rows.\<close>

definition window :: "image \<Rightarrow> int \<Rightarrow> int \<Rightarrow> int \<Rightarrow> real list list" where
  "window img r c k =
    map (\<lambda>i. map (\<lambda>j. pixel img i j) (slice (ncols img) (c - k) (c + k + 1)))
        (slice (nrows img) (r - k) (r + k + 1))"

text \<open>\<^verbatim>\<open>np.min\<close> and \<^verbatim>\<open>np.max\<close> of an array: an empty array raises.\<close>

definition np_min :: "real list list \<Rightarrow> failure + real" where
  "np_min w = (case concat w of [] \<Rightarrow> Inl ValueError | v # vs \<Rightarrow> Inr (fold min vs v))"

definition np_max :: "real list list \<Rightarrow> failure + real" where
  "np_max w = (case concat w of [] \<Rightarrow> Inl ValueError | v # vs \<Rightarrow> Inr (fold max vs v))"

definition np_abs :: "real list list \<Rightarrow> real list list" where
  "np_abs w = map (map abs) w"

text \<open>
  \<^verbatim>\<open>np.where(w == m)\<close> lists the matching index pairs in row-major order;
  \<^verbatim>\<open>(smax[0][0], smax[1][0])\<close> is the first of them.
\<close>

definition np_where :: "real list list \<Rightarrow> real \<Rightarrow> (int \<times> int) list" where
  "np_where w m =
    concat (map (\<lambda>i. map (\<lambda>j. (int i, int j))
                          (filter (\<lambda>j. w ! i ! j = m) [0 ..< length (w ! i)]))
                [0 ..< length w])"

record detection =
  pos :: coord
  brighter :: bool
  fsign :: sign

text \<open>
  The body of the loop over \<open>mx\<close> and \<open>my\<close> up to the decision (lines 247-278 and
  288-291): \<open>Inr None\<close> is a \<^verbatim>\<open>continue\<close>, \<open>Inr (Some d)\<close> a detection.
\<close>

definition bind :: "failure + 'a \<Rightarrow> ('a \<Rightarrow> failure + 'b) \<Rightarrow> failure + 'b" where
  "bind m f = (case m of Inl e \<Rightarrow> Inl e | Inr v \<Rightarrow> f v)"

text \<open>Python's \<^verbatim>\<open>a and b\<close>: \<open>b\<close> is evaluated only when \<open>a\<close> is true.\<close>

definition py_and :: "failure + bool \<Rightarrow> failure + bool \<Rightarrow> failure + bool" where
  "py_and a b = bind a (\<lambda>x. if x then b else Inr False)"

definition refine :: "image \<Rightarrow> cell \<Rightarrow> int \<Rightarrow> int \<Rightarrow> failure + detection option" where
  "refine img ch r c =
    (let w = np_abs (window img r c 1) in
     bind (np_max w) (\<lambda>m.
       case np_where w m of
         [] \<Rightarrow> Inl IndexError
       | ij # rest \<Rightarrow>
           (let smax_i = (r + fst ij - 1, c + snd ij - 1) in
            bind (getitem img (fst smax_i) (snd smax_i)) (\<lambda>v.
              Inr (Some \<lparr>pos = smax_i, brighter = (bright ch > dim ch),
                         fsign = (if v > 0 then positive else negative)\<rparr>)))))"

definition filter_a :: "image \<Rightarrow> int \<Rightarrow> int \<Rightarrow> failure + bool" where
  "filter_a img r c =
    py_and (bind (getitem img r c) (\<lambda>v. Inr (v > - 1.5)))
           (bind (getitem img r c) (\<lambda>v. Inr (v < 1.5)))"

definition filter_b :: "image \<Rightarrow> int \<Rightarrow> int \<Rightarrow> failure + bool" where
  "filter_b img r c =
    py_and (bind (np_min (window img r c 1)) (\<lambda>m. Inr (m > - 1.5)))
           (bind (np_max (window img r c 1)) (\<lambda>m. Inr (m < 1.5)))"

definition filter_c :: "image \<Rightarrow> int \<Rightarrow> int \<Rightarrow> failure + bool" where
  "filter_c img r c =
    py_and (bind (np_max (window img r c 2)) (\<lambda>m. Inr (m > 7.5)))
           (bind (np_min (window img r c 2)) (\<lambda>m. Inr (m < - 7.5)))"

definition filter_d :: "image \<Rightarrow> int \<Rightarrow> int \<Rightarrow> failure + bool" where
  "filter_d img r c = bind (np_max (np_abs (window img r c 1))) (\<lambda>m. Inr (m < 10))"

definition filters :: "image \<Rightarrow> cell \<Rightarrow> int \<Rightarrow> int \<Rightarrow> failure + detection option" where
  "filters img ch r c =
    bind (filter_a img r c) (\<lambda>a. if a then Inr None else
    bind (filter_b img r c) (\<lambda>b. if b then Inr None else
    bind (filter_c img r c) (\<lambda>c'. if c' then Inr None else
    bind (filter_d img r c) (\<lambda>d. if d then Inr None else refine img ch r c))))"

text \<open>Line 256: the predicted pixel coordinates \<open>(px, py)\<close> of a cell.\<close>

definition predicted :: "(real \<Rightarrow> real) \<Rightarrow> int \<Rightarrow> cell \<Rightarrow> nat \<Rightarrow> nat \<Rightarrow> real \<times> real" where
  "predicted rnd grid_size ch mx my =
    (rnd (rnd (real_of_int (int mx * grid_size)) + x1 ch),
     rnd (rnd (real_of_int (int my * grid_size)) + y1 ch))"

text \<open>
  Lines 248-273: one grid cell. Line 251 compares the network output \<^verbatim>\<open>prob\<close> with the
  Python float \<^verbatim>\<open>threshold\<close>, that is with the threshold rounded to the format.
\<close>

definition process_cell ::
  "(real \<Rightarrow> real) \<Rightarrow> real \<Rightarrow> int \<Rightarrow> image \<Rightarrow> grid \<Rightarrow> nat \<Rightarrow> nat
     \<Rightarrow> failure + detection option" where
  "process_cell rnd threshold grid_size img g mx my =
    (let ch = gcell g my mx in
     if prob ch < rnd threshold then Inr None
     else if trash ch > bright ch \<and> trash ch > dim ch then Inr None
     else case clamp rnd (fst (predicted rnd grid_size ch mx my))
                         (snd (predicted rnd grid_size ch mx my)) of
       None \<Rightarrow> Inl Diverges
     | Some (px, py) \<Rightarrow> filters img ch (py_int py) (py_int px))"

subsection \<open>detect: the loops over frames and cells\<close>

record det_state =
  sources :: "coord list"
  sources_by_frame :: "coord list list"
  num_sources :: "nat list"
  frames :: "nat list"
  flux_sign :: "sign list"
  variable_flag :: "coord \<rightharpoonup> pyval"

record detected = det_state +
  sourceID :: "coord \<rightharpoonup> nat"

definition init_state :: det_state where
  "init_state = \<lparr>sources = [], sources_by_frame = [], num_sources = [], frames = [],
                 flux_sign = [], variable_flag = Map.empty\<rparr>"

text \<open>Lines 282-286: the running variability signal of a position.\<close>

definition vf_record :: "coord \<Rightarrow> bool \<Rightarrow> (coord \<rightharpoonup> pyval) \<Rightarrow> (coord \<rightharpoonup> pyval)" where
  "vf_record c b vf =
    (case vf c of
       None \<Rightarrow> vf(c \<mapsto> PyInt (1 * (if b then 1 else 0)))
     | Some v \<Rightarrow>
         if py_ne v (PyInt (1 * (if b then 1 else 0))) then vf(c \<mapsto> PyBool True) else vf)"

text \<open>
  Lines 275-291 for an accepted cell of frame \<open>a\<close>; the accumulator is the state together
  with the frame's \<^verbatim>\<open>numb_sources\<close> and \<^verbatim>\<open>positions\<close>.
\<close>

type_synonym frame_acc = "det_state \<times> nat \<times> coord list"

definition record_detection :: "nat \<Rightarrow> detection \<Rightarrow> frame_acc \<Rightarrow> frame_acc" where
  "record_detection a d acc =
    (case acc of (st, numb_sources, positions) \<Rightarrow>
      (st\<lparr>sources := sources st @ [pos d],
          frames := frames st @ [a],
          variable_flag := vf_record (pos d) (brighter d) (variable_flag st),
          flux_sign := flux_sign st @ [fsign d]\<rparr>,
       numb_sources + 1,
       positions @ [pos d]))"

text \<open>\<^verbatim>\<open>for mx in range(j): for my in range(i)\<close>: the cells, column by column.\<close>

definition cell_order :: "grid \<Rightarrow> (nat \<times> nat) list" where
  "cell_order g = concat (map (\<lambda>mx. map (\<lambda>my. (mx, my)) [0 ..< grows g]) [0 ..< gcols g])"

fun run_cells ::
  "(nat \<Rightarrow> nat \<Rightarrow> failure + detection option) \<Rightarrow> nat \<Rightarrow> (nat \<times> nat) list \<Rightarrow> frame_acc
     \<Rightarrow> failure + frame_acc" where
  "run_cells f a [] acc = Inr acc"
| "run_cells f a ((mx, my) # cs) acc =
    (case f mx my of
       Inl e \<Rightarrow> Inl e
     | Inr None \<Rightarrow> run_cells f a cs acc
     | Inr (Some d) \<Rightarrow> run_cells f a cs (record_detection a d acc))"

definition detect_frame ::
  "(real \<Rightarrow> real) \<Rightarrow> real \<Rightarrow> int \<Rightarrow> nat \<Rightarrow> image \<times> grid \<Rightarrow> det_state
     \<Rightarrow> failure + det_state" where
  "detect_frame rnd threshold grid_size a fr st =
    bind (run_cells (process_cell rnd threshold grid_size (fst fr) (snd fr)) a
            (cell_order (snd fr)) (st, 0, []))
      (\<lambda>acc. case acc of (st', numb_sources, positions) \<Rightarrow>
         Inr (st'\<lparr>sources_by_frame := sources_by_frame st' @ [sort positions],
                  num_sources := num_sources st' @ [numb_sources]\<rparr>))"

fun run_frames ::
  "(real \<Rightarrow> real) \<Rightarrow> real \<Rightarrow> int \<Rightarrow> nat \<Rightarrow> (image \<times> grid) list \<Rightarrow> det_state
     \<Rightarrow> failure + det_state" where
  "run_frames rnd threshold grid_size a [] st = Inr st"
| "run_frames rnd threshold grid_size a (fr # frs) st =
    bind (detect_frame rnd threshold grid_size a fr st)
         (run_frames rnd threshold grid_size (Suc a) frs)"

text \<open>Lines 296-298: every value that is not a \<^verbatim>\<open>bool\<close> becomes \<^verbatim>\<open>False\<close>.\<close>

definition finalize_flags :: "(coord \<rightharpoonup> pyval) \<Rightarrow> (coord \<rightharpoonup> pyval)" where
  "finalize_flags vf = (\<lambda>c. map_option (\<lambda>v. if \<not> is_bool v then PyBool False else v) (vf c))"

text \<open>Lines 301-306: the accumulator is the dictionary and the counter \<^verbatim>\<open>id\<close>.\<close>

definition assign_ids :: "coord list \<Rightarrow> (coord \<rightharpoonup> nat) \<times> nat" where
  "assign_ids ss =
    fold (\<lambda>s (m, i). case m s of None \<Rightarrow> (m(s \<mapsto> i), i + 1) | Some k \<Rightarrow> (m, i)) ss (Map.empty, 0)"

text \<open>
  \<^verbatim>\<open>detect\<close> up to line 306, on the frames \<^verbatim>\<open>zip(self.flux, self.y)\<close>.
\<close>

definition detect ::
  "(real \<Rightarrow> real) \<Rightarrow> real \<Rightarrow> int \<Rightarrow> (image \<times> grid) list \<Rightarrow> failure + detected" where
  "detect rnd threshold grid_size frs =
    bind (run_frames rnd threshold grid_size 0 frs init_state) (\<lambda>st.
      Inr \<lparr>sources = sources st, sources_by_frame = sources_by_frame st,
           num_sources = num_sources st, frames = frames st, flux_sign = flux_sign st,
           variable_flag = finalize_flags (variable_flag st),
           sourceID = fst (assign_ids (sources st))\<rparr>)"

subsection \<open>close_detect\<close>

definition is_close :: "coord \<Rightarrow> coord \<Rightarrow> bool" where
  "is_close p q = (\<bar>fst p - fst q\<bar> \<le> 4 \<and> \<bar>snd p - snd q\<bar> \<le> 4)"

text \<open>Lines 143-149: \<open>close_objs[i]\<close> collects, in order of \<open>j\<close>, the positions close to \<open>src[i]\<close>.\<close>

definition neighbours :: "coord list \<Rightarrow> nat \<Rightarrow> coord list" where
  "neighbours src i =
    map (\<lambda>j. src ! j) (filter (\<lambda>j. i \<noteq> j \<and> is_close (src ! i) (src ! j)) [0 ..< length src])"

definition init_close_objs :: "coord list \<Rightarrow> coord list list" where
  "init_close_objs src = map (neighbours src) [0 ..< length src]"

text \<open>Lines 156-158: append to \<open>cj\<close> the members of \<open>ci\<close> that it does not hold yet.\<close>

definition append_new :: "'a list \<Rightarrow> 'a list \<Rightarrow> 'a list" where
  "append_new cj ci = fold (\<lambda>x acc. if x \<in> set acc then acc else acc @ [x]) ci cj"

definition merge_step :: "coord list \<Rightarrow> nat \<Rightarrow> nat \<Rightarrow> coord list list \<Rightarrow> coord list list" where
  "merge_step src i j objs =
    (if i \<noteq> j \<and> src ! i \<in> set (objs ! j) then objs[j := append_new (objs ! j) (objs ! i)] else objs)"

definition merge_row :: "coord list \<Rightarrow> nat \<Rightarrow> coord list list \<Rightarrow> coord list list" where
  "merge_row src i objs = fold (merge_step src i) [0 ..< length objs] objs"

definition merge_pass :: "coord list \<Rightarrow> coord list list \<Rightarrow> coord list list" where
  "merge_pass src objs = fold (merge_row src) [0 ..< length src] objs"

text \<open>Lines 160-162: the non-empty lists, sorted, without repetition.\<close>

definition dedup :: "coord list list \<Rightarrow> coord list list" where
  "dedup objs =
    fold (\<lambda>ob cs. if length ob > 0 \<and> sort ob \<notin> set cs then cs @ [sort ob] else cs) objs []"

definition close_frame :: "coord list \<Rightarrow> coord list list" where
  "close_frame src = dedup (merge_pass src (init_close_objs src))"

text \<open>The pair \<open>(close_sources, close_sources_by_frame)\<close>.\<close>

definition close_detect :: "coord list list \<Rightarrow> coord list list \<times> coord list list list" where
  "close_detect sbf =
    fold (\<lambda>src (close_sources, by_frame).
            (close_sources @ filter (\<lambda>g. length g > 0) (close_frame src),
             by_frame @ [close_frame src]))
         sbf ([], [])"

subsection \<open>unique_detect\<close>

definition py_nth :: "'a list \<Rightarrow> nat \<Rightarrow> failure + 'a" where
  "py_nth xs i = (if i < length xs then Inr (xs ! i) else Inl IndexError)"

text \<open>
  Lines 190-194: the loop over \<open>j\<close> for one position \<open>p\<close>; \<open>js\<close> is \<^verbatim>\<open>range(0, len(self.close_sources[s]))\<close>
  and \<open>groups\<close> is \<^verbatim>\<open>self.close_sources_by_frame[s]\<close>.
\<close>

fun unique_add :: "coord \<Rightarrow> coord list list \<Rightarrow> nat list \<Rightarrow> bool \<Rightarrow> failure + bool" where
  "unique_add p groups [] add = Inr add"
| "unique_add p groups (j # js) add =
    bind (py_nth groups j) (\<lambda>g. unique_add p groups js (if p \<in> set (drop 1 g) then False else add))"

fun unique_positions ::
  "coord list list \<Rightarrow> nat list \<Rightarrow> coord list \<Rightarrow> coord list \<Rightarrow> failure + coord list" where
  "unique_positions groups js [] acc = Inr acc"
| "unique_positions groups js (p # ps) acc =
    bind (unique_add p groups js True) (\<lambda>add.
      unique_positions groups js ps (if add then acc @ [p] else acc))"

definition unique_frame ::
  "coord list list \<Rightarrow> coord list list list \<Rightarrow> coord list list \<Rightarrow> nat \<Rightarrow> failure + coord list" where
  "unique_frame close_sources by_frame sbf s =
    bind (py_nth by_frame s) (\<lambda>groups.
      if length groups > 0 then
        bind (py_nth sbf s) (\<lambda>src.
          if src = [] then Inr []
          else bind (py_nth close_sources s) (\<lambda>cs.
                 unique_positions groups [0 ..< length cs] src []))
      else py_nth sbf s)"

fun unique_loop ::
  "coord list list \<Rightarrow> coord list list list \<Rightarrow> coord list list \<Rightarrow> nat list \<Rightarrow> coord list list
     \<Rightarrow> failure + coord list list" where
  "unique_loop close_sources by_frame sbf [] acc = Inr acc"
| "unique_loop close_sources by_frame sbf (s # ss) acc =
    bind (unique_frame close_sources by_frame sbf s) (\<lambda>u.
      unique_loop close_sources by_frame sbf ss (acc @ [u]))"

definition unique_detect ::
  "coord list list \<Rightarrow> coord list list \<times> coord list list list \<Rightarrow> failure + coord list list" where
  "unique_detect sbf cl = unique_loop (fst cl) (snd cl) sbf [0 ..< length sbf] []"

subsection \<open>group_and_id\<close>

text \<open>
  \<^verbatim>\<open>find\<close> with path compression; it returns the updated \<^verbatim>\<open>parent\<close> and the root.
  The recursion follows the parent links, so a call that does not return is \<open>None\<close>;
  a missing key raises.
\<close>

partial_function (option) find ::
  "(coord \<rightharpoonup> coord) \<Rightarrow> coord \<Rightarrow> (failure + (coord \<rightharpoonup> coord) \<times> coord) option" where
  "find parent x =
    (case parent x of
       None \<Rightarrow> Some (Inl KeyError)
     | Some p \<Rightarrow>
         if p \<noteq> x then
           Option.bind (find parent p) (\<lambda>res.
             case res of
               Inl e \<Rightarrow> Some (Inl e)
             | Inr (parent', r) \<Rightarrow> Some (Inr (parent'(x \<mapsto> r), r)))
         else Some (Inr (parent, x)))"

definition find_root :: "(coord \<rightharpoonup> coord) \<Rightarrow> coord \<Rightarrow> failure + (coord \<rightharpoonup> coord) \<times> coord" where
  "find_root parent x = (case find parent x of None \<Rightarrow> Inl Diverges | Some res \<Rightarrow> res)"

definition lookup :: "('k \<rightharpoonup> 'v) \<Rightarrow> 'k \<Rightarrow> failure + 'v" where
  "lookup m k = (case m k of None \<Rightarrow> Inl KeyError | Some v \<Rightarrow> Inr v)"

type_synonym forest = "(coord \<rightharpoonup> coord) \<times> (coord \<rightharpoonup> nat)"

definition union :: "forest \<Rightarrow> coord \<Rightarrow> coord \<Rightarrow> failure + forest" where
  "union pr x y =
    bind (find_root (fst pr) x) (\<lambda>fx.
    bind (find_root (fst fx) y) (\<lambda>fy.
      let parent = fst fy; rank = snd pr; rootX = snd fx; rootY = snd fy in
      if rootX \<noteq> rootY then
        bind (lookup rank rootX) (\<lambda>rx.
        bind (lookup rank rootY) (\<lambda>ry.
          if rx > ry then Inr (parent(rootY \<mapsto> rootX), rank)
          else if rx < ry then Inr (parent(rootX \<mapsto> rootY), rank)
          else Inr (parent(rootY \<mapsto> rootX), rank(rootX \<mapsto> rx + 1))))
      else Inr (parent, rank)))"

text \<open>Lines 394-397.\<close>

definition register :: "coord list \<Rightarrow> forest \<Rightarrow> forest" where
  "register sublist pr =
    fold (\<lambda>coord (parent, rank).
            case parent coord of
              None \<Rightarrow> (parent(coord \<mapsto> coord), rank(coord \<mapsto> 0))
            | Some p \<Rightarrow> (parent, rank))
         sublist pr"

text \<open>Lines 399-400: the unions of \<open>sublist[i]\<close> with \<open>sublist[i+1]\<close>, in order.\<close>

fun union_chain :: "coord list \<Rightarrow> forest \<Rightarrow> failure + forest" where
  "union_chain (x # y # zs) pr = bind (union pr x y) (union_chain (y # zs))"
| "union_chain [x] pr = Inr pr"
| "union_chain [] pr = Inr pr"

fun group_unions :: "coord list list \<Rightarrow> forest \<Rightarrow> failure + forest" where
  "group_unions [] pr = Inr pr"
| "group_unions (sublist # rest) pr =
    bind (union_chain sublist (register sublist pr)) (group_unions rest)"

text \<open>
  A dictionary whose order of insertion matters is an association list; assigning to a
  key that is present keeps its place.
\<close>

fun dict_set :: "'k \<Rightarrow> 'v \<Rightarrow> ('k \<times> 'v) list \<Rightarrow> ('k \<times> 'v) list" where
  "dict_set k v [] = [(k, v)]"
| "dict_set k v ((k', v') # kvs) =
    (if k = k' then (k, v) # kvs else (k', v') # dict_set k v kvs)"

text \<open>
  Lines 403-408. A Python set is modelled by a list without repetition (its order of
  iteration is not used: \<^verbatim>\<open>IDassign\<close> sorts each group).
\<close>

definition grouped_update ::
  "coord \<Rightarrow> coord list \<Rightarrow> (coord \<times> coord list) list \<Rightarrow> (coord \<times> coord list) list" where
  "grouped_update rt sublist grouped =
    (case map_of grouped rt of
       None \<Rightarrow> grouped @ [(rt, append_new [] sublist)]
     | Some members \<Rightarrow> dict_set rt (append_new members sublist) grouped)"

fun collect ::
  "coord list list \<Rightarrow> (coord \<rightharpoonup> coord) \<Rightarrow> (coord \<times> coord list) list
     \<Rightarrow> failure + (coord \<times> coord list) list" where
  "collect [] parent grouped = Inr grouped"
| "collect (sublist # rest) parent grouped =
    bind (py_nth sublist 0) (\<lambda>first.
    bind (find_root parent first) (\<lambda>fr.
      collect rest (fst fr) (grouped_update (snd fr) sublist grouped)))"

definition group :: "coord list list \<Rightarrow> failure + coord list list" where
  "group close_sources =
    bind (group_unions close_sources (Map.empty, Map.empty)) (\<lambda>pr.
    bind (collect close_sources (fst pr) []) (\<lambda>grouped. Inr (map snd grouped)))"

text \<open>Lines 428-439.\<close>

definition id_map :: "coord list list \<Rightarrow> (coord list \<times> int) list" where
  "id_map groups =
    fold (\<lambda>(idx, g) m. dict_set (sort g) (int idx) m) (enumerate 0 groups) []"

definition position_to_id :: "(coord list \<times> int) list \<Rightarrow> (coord \<rightharpoonup> int)" where
  "position_to_id items =
    fold (\<lambda>(g, group_id) m. fold (\<lambda>coord m'. m'(coord \<mapsto> group_id)) g m) items Map.empty"

definition IDassign :: "coord list list \<Rightarrow> coord list \<Rightarrow> (coord \<rightharpoonup> int)" where
  "IDassign groups positions =
    fold (\<lambda>coord result.
            result(coord \<mapsto> (case position_to_id (id_map groups) coord of
                                 None \<Rightarrow> - 1 | Some group_id \<Rightarrow> group_id)))
         positions Map.empty"

text \<open>Lines 454-460.\<close>

definition get_num_detections :: "coord list \<Rightarrow> (coord \<rightharpoonup> nat)" where
  "get_num_detections detections =
    fold (\<lambda>i n. case n i of Some k \<Rightarrow> n(i \<mapsto> k + 1) | None \<Rightarrow> n(i \<mapsto> 1)) detections Map.empty"

record grouping =
  groups :: "coord list list"
  groupID :: "coord \<rightharpoonup> int"
  n_detections :: "coord \<rightharpoonup> nat"

definition group_and_id :: "coord list list \<Rightarrow> coord list \<Rightarrow> failure + grouping" where
  "group_and_id close_sources srcs =
    bind (group close_sources) (\<lambda>gs.
      Inr \<lparr>groups = gs, groupID = IDassign gs srcs, n_detections = get_num_detections srcs\<rparr>)"

subsection \<open>The pipeline\<close>

text \<open>
  \<^verbatim>\<open>analyse\<close>: \<^verbatim>\<open>detect\<close> (which calls \<^verbatim>\<open>close_detect\<close>, as \<^verbatim>\<open>close\<close> is true by
  default), then \<^verbatim>\<open>group_and_id\<close>.
\<close>

record run =
  det :: detected
  close_sources :: "coord list list"
  close_sources_by_frame :: "coord list list list"
  grp :: grouping

definition pipeline ::
  "(real \<Rightarrow> real) \<Rightarrow> real \<Rightarrow> int \<Rightarrow> (image \<times> grid) list \<Rightarrow> failure + run" where
  "pipeline rnd threshold grid_size frs =
    bind (detect rnd threshold grid_size frs) (\<lambda>d.
      let cl = close_detect (sources_by_frame d) in
      bind (group_and_id (fst cl) (sources d)) (\<lambda>g.
        Inr \<lparr>det = d, close_sources = fst cl, close_sources_by_frame = snd cl, grp = g\<rparr>))"

section \<open>Definitions for the statements\<close>

fun cell_events :: "(nat \<Rightarrow> nat \<Rightarrow> failure + detection option) \<Rightarrow> (nat \<times> nat) list \<Rightarrow> detection list" where
  "cell_events f [] = []"
| "cell_events f ((mx, my) # cs) =
    (case f mx my of Inr (Some d) \<Rightarrow> d # cell_events f cs | _ \<Rightarrow> cell_events f cs)"

definition frame_events ::
  "(real \<Rightarrow> real) \<Rightarrow> real \<Rightarrow> int \<Rightarrow> image \<times> grid \<Rightarrow> detection list" where
  "frame_events rnd threshold grid_size fr =
    cell_events (process_cell rnd threshold grid_size (fst fr) (snd fr)) (cell_order (snd fr))"

definition all_events ::
  "(real \<Rightarrow> real) \<Rightarrow> real \<Rightarrow> int \<Rightarrow> (image \<times> grid) list \<Rightarrow> detection list" where
  "all_events rnd threshold grid_size frs = concat (map (frame_events rnd threshold grid_size) frs)"

definition vf_events :: "detection list \<Rightarrow> (coord \<rightharpoonup> pyval) \<Rightarrow> (coord \<rightharpoonup> pyval)" where
  "vf_events ds vf = fold (\<lambda>d. vf_record (pos d) (brighter d)) ds vf"

definition first_rank :: "coord list \<Rightarrow> coord \<Rightarrow> nat option" where
  "first_rank seen c =
    (if c \<in> set seen then Some (card (set (takeWhile (\<lambda>x. x \<noteq> c) seen))) else None)"

definition occurrences :: "coord list \<Rightarrow> coord \<Rightarrow> nat option" where
  "occurrences seen c = (if c \<in> set seen then Some (count_list seen c) else None)"

definition disagree :: "detection list \<Rightarrow> coord \<Rightarrow> bool" where
  "disagree ds c =
    (\<exists>d1 \<in> set ds. \<exists>d2 \<in> set ds. pos d1 = c \<and> pos d2 = c \<and> brighter d1 \<noteq> brighter d2)"

definition flag_inv :: "detection list \<Rightarrow> (coord \<rightharpoonup> pyval) \<Rightarrow> bool" where
  "flag_inv ds vf \<longleftrightarrow>
    (\<forall>c. case vf c of
            None \<Rightarrow> c \<notin> pos ` set ds
          | Some (PyBool b) \<Rightarrow> b \<and> c \<in> pos ` set ds \<and> disagree ds c
          | Some (PyInt n) \<Rightarrow> c \<in> pos ` set ds \<and> \<not> disagree ds c \<and>
               (\<forall>d \<in> set ds. pos d = c \<longrightarrow> n = (if brighter d then 1 else 0)))"

definition zero_cell :: cell where
  "zero_cell = \<lparr>prob = 0, x1 = 0, y1 = 0, x2 = 0, y2 = 0, bright = 0, dim = 0, trash = 0\<rparr>"

definition star_cell :: "real \<Rightarrow> real \<Rightarrow> real \<Rightarrow> real \<Rightarrow> cell" where
  "star_cell dx dy b d =
     \<lparr>prob = 0.95, x1 = dx, y1 = dy, x2 = 3, y2 = 3, bright = b, dim = d, trash = 0\<rparr>"

definition star_image :: image where
  "star_image = \<lparr>nrows = 16, ncols = 16,
     pixel = (\<lambda>r c. if r = 10 \<and> c = 11 then 50 else if r = 10 \<and> c = 12 then 20
                     else if r = 13 \<and> c = 11 then 30 else if r = 10 \<and> c = 15 then 40 else 0)\<rparr>"

definition star_grid :: "cell \<Rightarrow> cell \<Rightarrow> cell \<Rightarrow> grid" where
  "star_grid a q b = \<lparr>grows = 4, gcols = 4,
     gcell = (\<lambda>my mx. if my = 2 \<and> mx = 2 then a else if my = 3 \<and> mx = 2 then q
                       else if my = 2 \<and> mx = 3 then b else zero_cell)\<rparr>"

definition pair_grid :: grid where
  "pair_grid = star_grid (star_cell 3.5 2.5 0.9 0.1) zero_cell (star_cell 0.25 2.5 0.9 0.1)"

definition trio_grid :: grid where
  "trio_grid = star_grid (star_cell 3.5 2.5 0.9 0.1) (star_cell 3.5 1.5 0.9 0.1)
                         (star_cell 0.25 2.5 0.9 0.1)"

definition dim_grid :: grid where
  "dim_grid = star_grid (star_cell 3.5 2.5 0.1 0.9) zero_cell zero_cell"

definition edge_grid :: grid where
  "edge_grid = star_grid zero_cell zero_cell (star_cell 3.5 2.5 0.9 0.1)"

definition frames_detecting :: "coord list list \<Rightarrow> coord \<Rightarrow> nat" where
  "frames_detecting sbf c = length (filter (\<lambda>positions. c \<in> set positions) sbf)"

text \<open>
  What the proofs use of the rounding of a float format: it is monotone and leaves the
  integers up to \<open>2 ^ 24\<close> as they are (they are floats of every format from float32 on).
\<close>

definition float_rounding :: "(real \<Rightarrow> real) \<Rightarrow> bool" where
  "float_rounding rnd \<longleftrightarrow>
     (\<forall>x y. x \<le> y \<longrightarrow> rnd x \<le> rnd y) \<and>
     (\<forall>n :: int. \<bar>n\<bar> \<le> 2 ^ 24 \<longrightarrow> rnd (real_of_int n) = real_of_int n)"

text \<open>
  The filters in the words of the specification: the pixel can be read, and none of the
  four rejections applies. The neighbourhood of half-width \<open>k\<close> is cut at the border of
  the image.
\<close>

definition in_bounds :: "image \<Rightarrow> int \<Rightarrow> int \<Rightarrow> bool" where
  "in_bounds img r c \<longleftrightarrow> 0 \<le> r \<and> r < int (nrows img) \<and> 0 \<le> c \<and> c < int (ncols img)"

definition neighbourhood :: "image \<Rightarrow> int \<Rightarrow> int \<Rightarrow> int \<Rightarrow> real set" where
  "neighbourhood img r c k =
     (\<lambda>(i, j). pixel img i j) `
       ({max 0 (r - k) .. min (r + k) (int (nrows img) - 1)} \<times>
        {max 0 (c - k) .. min (c + k) (int (ncols img) - 1)})"

definition passes_filters :: "image \<Rightarrow> int \<Rightarrow> int \<Rightarrow> bool" where
  "passes_filters img r c \<longleftrightarrow>
     in_bounds img r c \<and>
     \<not> (- 1.5 < pixel img r c \<and> pixel img r c < 1.5) \<and>
     \<not> (- 1.5 < Min (neighbourhood img r c 1) \<and> Max (neighbourhood img r c 1) < 1.5) \<and>
     \<not> (7.5 < Max (neighbourhood img r c 2) \<and> Min (neighbourhood img r c 2) < - 7.5) \<and>
     \<not> (Max (abs ` neighbourhood img r c 1) < 10)"

text \<open>
  Rounding to the nearest float of \<open>prec\<close> significant bits, ties to even (\<open>prec = 24\<close> is
  numpy's float32, \<open>prec = 53\<close> its float64 and Python's float). The exponent is not
  bounded: overflow and subnormal numbers are left out, they play no part for the
  coordinates here.
\<close>

definition round_half_even :: "real \<Rightarrow> int" where
  "round_half_even y =
     (let f = \<lfloor>y\<rfloor>; d = y - real_of_int f
      in if d < 1 / 2 then f else if d > 1 / 2 then f + 1 else if even f then f else f + 1)"

definition ulp :: "nat \<Rightarrow> real \<Rightarrow> real" where
  "ulp prec x = 2 powr (real_of_int \<lfloor>log 2 \<bar>x\<bar>\<rfloor> - real prec + 1)"

definition binary_round :: "nat \<Rightarrow> real \<Rightarrow> real" where
  "binary_round prec x =
     (if x = 0 then 0 else ulp prec x * real_of_int (round_half_even (x / ulp prec x)))"

text \<open>
  The relation of the frame: two detections of the frame (two places of its list) within 4
  pixels of each other in each axis. A position detected twice is related to itself.
\<close>

definition close_rel :: "coord list \<Rightarrow> (coord \<times> coord) set" where
  "close_rel src = {(p, q). \<exists>i j. i < length src \<and> j < length src \<and> i \<noteq> j \<and>
                              src ! i = p \<and> src ! j = q \<and> is_close p q}"

text \<open>
  The invariant of the merge pass after the pivots \<open>< k\<close>: each list holds the neighbours
  of its position and only positions connected to it, and is closed under the lists of the
  pivots it holds.
\<close>

definition merge_inv :: "coord list \<Rightarrow> nat \<Rightarrow> coord list list \<Rightarrow> bool" where
  "merge_inv src k objs \<longleftrightarrow>
     length objs = length src \<and>
     (\<forall>j < length src.
        close_rel src `` {src ! j} \<subseteq> set (objs ! j) \<and>
        set (objs ! j) \<subseteq> (close_rel src)\<^sup>+ `` {src ! j}) \<and>
     (\<forall>i < k. \<forall>j < length src. src ! i \<in> set (objs ! j) \<longrightarrow> set (objs ! i) \<subseteq> set (objs ! j))"

text \<open>\<open>root_of parent x r\<close>: following the parent links from \<open>x\<close> ends in the root \<open>r\<close>.\<close>

inductive root_of :: "(coord \<rightharpoonup> coord) \<Rightarrow> coord \<Rightarrow> coord \<Rightarrow> bool"
  for parent :: "coord \<rightharpoonup> coord" where
  self: "parent x = Some x \<Longrightarrow> root_of parent x x"
| up: "parent x = Some p \<Longrightarrow> p \<noteq> x \<Longrightarrow> root_of parent p r \<Longrightarrow> root_of parent x r"

definition forest :: "(coord \<rightharpoonup> coord) \<Rightarrow> bool" where
  "forest parent \<longleftrightarrow> (\<forall>x \<in> dom parent. \<exists>r. root_of parent x r)"

definition same_root :: "(coord \<rightharpoonup> coord) \<Rightarrow> coord \<Rightarrow> coord \<Rightarrow> bool" where
  "same_root parent a b \<longleftrightarrow> (\<exists>r. root_of parent a r \<and> root_of parent b r)"

definition uf_inv :: "forest \<Rightarrow> bool" where
  "uf_inv pr \<longleftrightarrow> forest (fst pr) \<and> dom (snd pr) = dom (fst pr)"

text \<open>\<open>uf_le pr pr'\<close>: the later forest \<open>pr'\<close> has kept every key and every merge of \<open>pr\<close>.\<close>

definition uf_le :: "forest \<Rightarrow> forest \<Rightarrow> bool" where
  "uf_le pr pr' \<longleftrightarrow> dom (fst pr) \<subseteq> dom (fst pr') \<and>
     (\<forall>a b. same_root (fst pr) a b \<longrightarrow> same_root (fst pr') a b)"

text \<open>
  \<open>co_occur gs\<close>: the two positions are members of one close-group of the list \<open>gs\<close>.
  Its transitive closure is connection by a chain of co-memberships.
\<close>

definition co_occur :: "coord list list \<Rightarrow> (coord \<times> coord) set" where
  "co_occur gs = {(p, q). \<exists>g \<in> set gs. p \<in> set g \<and> q \<in> set g}"

text \<open>
  The dictionary \<^verbatim>\<open>grouped\<close> is good for the root relation \<open>R\<close> when its keys are distinct and
  every member of an entry has the entry's key as root.
\<close>

definition good_grouped :: "(coord \<Rightarrow> coord \<Rightarrow> bool) \<Rightarrow> (coord \<times> coord list) list \<Rightarrow> bool" where
  "good_grouped R grouped \<longleftrightarrow> distinct (map fst grouped) \<and>
     (\<forall>k ms. map_of grouped k = Some ms \<longrightarrow> ms \<noteq> [] \<and> (\<forall>m \<in> set ms. R m k))"

definition covered :: "(coord \<times> coord list) list \<Rightarrow> coord list \<Rightarrow> bool" where
  "covered grouped g \<longleftrightarrow> (\<exists>k ms. map_of grouped k = Some ms \<and> set g \<subseteq> set ms)"

text \<open>
  The groups returned by \<^verbatim>\<open>group\<close>: \<^verbatim>\<open>group\<close> returns (no key is missing, no search for a
  root runs forever) when no close-group is empty; the groups are non-empty, pairwise
  disjoint and made of members of close-groups, and two positions connected by a chain of
  co-memberships are in one group.
\<close>

definition partition_of :: "coord list list \<Rightarrow> coord list list \<Rightarrow> bool" where
  "partition_of css gs \<longleftrightarrow>
     (\<forall>i < length gs. gs ! i \<noteq> [] \<and> set (gs ! i) \<subseteq> \<Union>(set ` set css)) \<and>
     (\<forall>i < length gs. \<forall>j < length gs. \<forall>m. m \<in> set (gs ! i) \<and> m \<in> set (gs ! j) \<longrightarrow> i = j) \<and>
     (\<forall>p q. (p, q) \<in> (co_occur css)\<^sup>+ \<longrightarrow> (\<exists>i < length gs. p \<in> set (gs ! i) \<and> q \<in> set (gs ! i)))"

text \<open>A cell whose channels are floats of every format: its probability is one half.\<close>

definition half_cell :: cell where
  "half_cell = \<lparr>prob = 1 / 2, x1 = 7 / 2, y1 = 5 / 2, x2 = 3, y2 = 3, bright = 1, dim = 0, trash = 0\<rparr>"

definition half_grid :: grid where
  "half_grid = star_grid half_cell zero_cell zero_cell"

text \<open>A threshold that is a float64 and not a float32: \<open>1/2 + 2\<^sup>-\<^sup>3\<^sup>0\<close>.\<close>

definition above_half :: real where
  "above_half = 1 / 2 + 1 / 2 ^ 30"

section \<open>Properties\<close>

subsection \<open>The detections of a run, in the order of the loops\<close>

lemma bind_Inr_iff: "bind m f = Inr y \<longleftrightarrow> (\<exists>v. m = Inr v \<and> f v = Inr y)"
  by (cases m) (simp_all add: bind_def)

lemma run_cells_fold:
  "run_cells f a cs acc = Inr acc' \<Longrightarrow> acc' = fold (record_detection a) (cell_events f cs) acc"
proof (induction cs arbitrary: acc)
  case Nil
  then show ?case by simp
next
  case (Cons c cs)
  obtain mx my where c: "c = (mx, my)" by (cases c)
  show ?case
  proof (cases "f mx my")
    case (Inl e)
    with Cons.prems c show ?thesis by simp
  next
    case (Inr od)
    with Cons c show ?thesis by (cases od) simp_all
  qed
qed

lemma fold_record_detection:
  "fold (record_detection a) ds (st, n, ps) = (st', n', ps') \<Longrightarrow>
     sources st' = sources st @ map pos ds \<and>
     variable_flag st' = vf_events ds (variable_flag st) \<and>
     sources_by_frame st' = sources_by_frame st \<and>
     ps' = ps @ map pos ds"
proof (induction ds arbitrary: st n ps)
  case Nil
  then show ?case by (simp add: vf_events_def)
next
  case (Cons d ds)
  from Cons.prems Cons.IH[of "st\<lparr>sources := sources st @ [pos d], frames := frames st @ [a],
          variable_flag := vf_record (pos d) (brighter d) (variable_flag st),
          flux_sign := flux_sign st @ [fsign d]\<rparr>" "n + 1" "ps @ [pos d]"]
  show ?case by (simp add: record_detection_def vf_events_def)
qed

lemma detect_frame_events:
  assumes "detect_frame rnd t gs a fr st = Inr st'"
  shows "sources st' = sources st @ map pos (frame_events rnd t gs fr) \<and>
         variable_flag st' = vf_events (frame_events rnd t gs fr) (variable_flag st) \<and>
         sources_by_frame st' =
           sources_by_frame st @ [sort (map pos (frame_events rnd t gs fr))]"
proof -
  from assms obtain acc where
    rc: "run_cells (process_cell rnd t gs (fst fr) (snd fr)) a (cell_order (snd fr)) (st, 0, []) = Inr acc"
    and st': "(case acc of (s, n, ps) \<Rightarrow>
         Inr (s\<lparr>sources_by_frame := sources_by_frame s @ [sort ps],
                  num_sources := num_sources s @ [n]\<rparr>)) = (Inr st' :: failure + det_state)"
    unfolding detect_frame_def bind_Inr_iff by blast
  obtain s n ps where acc: "acc = (s, n, ps)" by (cases acc)
  from run_cells_fold[OF rc] acc
  have "fold (record_detection a) (frame_events rnd t gs fr) (st, 0, []) = (s, n, ps)"
    by (simp add: frame_events_def)
  from fold_record_detection[OF this] st' acc show ?thesis by auto
qed

lemma run_frames_events:
  "run_frames rnd t gs a frs st = Inr st' \<Longrightarrow>
     sources st' = sources st @ map pos (all_events rnd t gs frs) \<and>
     variable_flag st' = vf_events (all_events rnd t gs frs) (variable_flag st) \<and>
     sources_by_frame st' =
       sources_by_frame st @ map (\<lambda>fr. sort (map pos (frame_events rnd t gs fr))) frs"
proof (induction frs arbitrary: a st)
  case Nil
  then show ?case by (simp add: all_events_def vf_events_def)
next
  case (Cons fr frs)
  from Cons.prems obtain st1 where
    1: "detect_frame rnd t gs a fr st = Inr st1" and
    2: "run_frames rnd t gs (Suc a) frs st1 = Inr st'"
    by (auto simp: bind_Inr_iff)
  from detect_frame_events[OF 1] Cons.IH[OF 2] show ?case
    by (simp add: all_events_def vf_events_def)
qed

lemma detect_events:
  assumes "detect rnd t gs frs = Inr out"
  shows "sources out = map pos (all_events rnd t gs frs)"
    and "variable_flag out = finalize_flags (vf_events (all_events rnd t gs frs) Map.empty)"
    and "sources_by_frame out = map (\<lambda>fr. sort (map pos (frame_events rnd t gs fr))) frs"
    and "sourceID out = fst (assign_ids (sources out))"
proof -
  from assms obtain st where 1: "run_frames rnd t gs 0 frs init_state = Inr st"
    and out: "out = \<lparr>sources = sources st, sources_by_frame = sources_by_frame st,
           num_sources = num_sources st, frames = frames st, flux_sign = flux_sign st,
           variable_flag = finalize_flags (variable_flag st),
           sourceID = fst (assign_ids (sources st))\<rparr>"
    unfolding detect_def bind_Inr_iff by auto
  from run_frames_events[OF 1] out
  show "sources out = map pos (all_events rnd t gs frs)"
    and "variable_flag out = finalize_flags (vf_events (all_events rnd t gs frs) Map.empty)"
    and "sources_by_frame out = map (\<lambda>fr. sort (map pos (frame_events rnd t gs fr))) frs"
    and "sourceID out = fst (assign_ids (sources out))"
    by (simp_all add: init_state_def)
qed

subsection \<open>Source identifiers\<close>

lemma takeWhile_self: "c \<notin> set seen \<Longrightarrow> takeWhile (\<lambda>x. x \<noteq> c) seen = seen"
  by (induction seen) auto

lemma takeWhile_new:
  "c \<notin> set seen \<Longrightarrow> takeWhile (\<lambda>x. x \<noteq> c) (seen @ [c]) = seen"
  by (induction seen) auto

lemma first_rank_snoc_new:
  assumes "s \<notin> set seen"
  shows "first_rank (seen @ [s]) = (first_rank seen)(s \<mapsto> card (set seen))"
proof
  fix c
  show "first_rank (seen @ [s]) c = ((first_rank seen)(s \<mapsto> card (set seen))) c"
  proof (cases "c = s")
    case True
    with assms show ?thesis
      by (simp add: first_rank_def takeWhile_new)
  next
    case False
    then show ?thesis
      by (auto simp: first_rank_def takeWhile_append1 takeWhile_self takeWhile_append2
               dest: set_takeWhileD)
  qed
qed

lemma takeWhile_snoc_old:
  "c \<in> set seen \<Longrightarrow> takeWhile (\<lambda>x. x \<noteq> c) (seen @ ss) = takeWhile (\<lambda>x. x \<noteq> c) seen"
  by (induction seen) auto

lemma first_rank_snoc_old:
  assumes "s \<in> set seen"
  shows "first_rank (seen @ [s]) = first_rank seen"
proof
  fix c
  show "first_rank (seen @ [s]) c = first_rank seen c"
    using assms by (cases "c \<in> set seen") (auto simp: first_rank_def takeWhile_snoc_old)
qed

lemma assign_ids_fold:
  "fold (\<lambda>s (m, i). case m s of None \<Rightarrow> (m(s \<mapsto> i), i + 1) | Some k \<Rightarrow> (m, i)) ss
        (first_rank seen, card (set seen))
   = (first_rank (seen @ ss), card (set (seen @ ss)))"
proof (induction ss arbitrary: seen)
  case Nil
  then show ?case by simp
next
  case (Cons s ss)
  let ?F = "\<lambda>s (m :: coord \<rightharpoonup> nat, i). case m s of None \<Rightarrow> (m(s \<mapsto> i), i + 1) | Some k \<Rightarrow> (m, i)"
  have step: "?F s (first_rank seen, card (set seen))
                = (first_rank (seen @ [s]), card (set (seen @ [s])))"
  proof (cases "s \<in> set seen")
    case True
    then obtain k where k: "first_rank seen s = Some k" by (auto simp: first_rank_def)
    have "insert s (set seen) = set seen" using True by auto
    with True k show ?thesis by (simp add: first_rank_snoc_old)
  next
    case False
    then have "first_rank seen s = None" by (simp add: first_rank_def)
    with False show ?thesis by (simp add: first_rank_snoc_new)
  qed
  have "fold ?F (s # ss) (first_rank seen, card (set seen))
          = fold ?F ss (?F s (first_rank seen, card (set seen)))" by simp
  also have "\<dots> = fold ?F ss (first_rank (seen @ [s]), card (set (seen @ [s])))"
    by (simp only: step)
  also have "\<dots> = (first_rank ((seen @ [s]) @ ss), card (set ((seen @ [s]) @ ss)))"
    by (rule Cons.IH)
  finally show ?case by simp
qed

lemma assign_ids_first_rank: "fst (assign_ids ss) = first_rank ss"
proof -
  have "first_rank [] = Map.empty" by (rule ext) (simp add: first_rank_def)
  with assign_ids_fold[of ss "[]"] show ?thesis by (simp add: assign_ids_def)
qed

lemma first_rank_lt: "first_rank ss c = Some i \<Longrightarrow> i < card (set ss)"
proof -
  assume a: "first_rank ss c = Some i"
  then have c: "c \<in> set ss" and i: "i = card (set (takeWhile (\<lambda>x. x \<noteq> c) ss))"
    by (auto simp: first_rank_def split: if_splits)
  have "set (takeWhile (\<lambda>x. x \<noteq> c) ss) \<subseteq> set ss - {c}"
    by (auto dest: set_takeWhileD)
  moreover have "set ss - {c} \<subset> set ss" using c by auto
  ultimately have "set (takeWhile (\<lambda>x. x \<noteq> c) ss) \<subset> set ss" by blast
  then show ?thesis unfolding i by (intro psubset_card_mono) auto
qed

lemma takeWhile_before_subset:
  "c \<in> set (takeWhile (\<lambda>x. x \<noteq> c') ss) \<Longrightarrow>
     set (takeWhile (\<lambda>x. x \<noteq> c) ss) \<subseteq> set (takeWhile (\<lambda>x. x \<noteq> c') ss)"
  by (induction ss) (auto split: if_splits)

lemma takeWhile_before:
  assumes "c \<in> set (takeWhile (\<lambda>x. x \<noteq> c') ss)"
  shows "set (takeWhile (\<lambda>x. x \<noteq> c) ss) \<subset> set (takeWhile (\<lambda>x. x \<noteq> c') ss)"
proof -
  have "c \<notin> set (takeWhile (\<lambda>x. x \<noteq> c) ss)" by (auto dest: set_takeWhileD)
  with assms takeWhile_before_subset[OF assms] show ?thesis by blast
qed

lemma first_rank_inj:
  assumes "first_rank ss c = Some i" "first_rank ss c' = Some i"
  shows "c = c'"
proof (rule ccontr)
  assume ne: "c \<noteq> c'"
  from assms have c: "c \<in> set ss" and c': "c' \<in> set ss"
    and i: "i = card (set (takeWhile (\<lambda>x. x \<noteq> c) ss))"
    and i': "i = card (set (takeWhile (\<lambda>x. x \<noteq> c') ss))"
    by (auto simp: first_rank_def split: if_splits)
  have "c \<in> set (takeWhile (\<lambda>x. x \<noteq> c') ss) \<or> c' \<in> set (takeWhile (\<lambda>x. x \<noteq> c) ss)"
    using c c' ne by (induction ss) auto
  then show False
  proof
    assume "c \<in> set (takeWhile (\<lambda>x. x \<noteq> c') ss)"
    from psubset_card_mono[OF _ takeWhile_before[OF this]] i i' show False by simp
  next
    assume "c' \<in> set (takeWhile (\<lambda>x. x \<noteq> c) ss)"
    from psubset_card_mono[OF _ takeWhile_before[OF this]] i i' show False by simp
  qed
qed

lemma first_rank_ran: "ran (first_rank ss) = {0 ..< card (set ss)}"
proof -
  have fin: "finite (set ss)" by simp
  have sub: "ran (first_rank ss) \<subseteq> {0 ..< card (set ss)}"
    by (auto simp: ran_def dest: first_rank_lt)
  have img: "ran (first_rank ss) = (\<lambda>c. the (first_rank ss c)) ` set ss"
    by (auto simp: ran_def first_rank_def image_iff split: if_splits)
  have "inj_on (\<lambda>c. the (first_rank ss c)) (set ss)"
  proof (rule inj_onI)
    fix c c' assume "c \<in> set ss" "c' \<in> set ss"
      and "the (first_rank ss c) = the (first_rank ss c')"
    then show "c = c'"
      using first_rank_inj[of ss c _ c'] by (auto simp: first_rank_def)
  qed
  then have "card (ran (first_rank ss)) = card (set ss)"
    unfolding img by (rule card_image)
  with sub show ?thesis
    by (intro card_subset_eq) auto
qed

subsection \<open>Detection counts\<close>

lemma occurrences_snoc:
  "(case occurrences seen s of Some k \<Rightarrow> (occurrences seen)(s \<mapsto> k + 1)
                              | None \<Rightarrow> (occurrences seen)(s \<mapsto> 1))
   = occurrences (seen @ [s])"
  by (rule ext) (auto simp: occurrences_def count_list_0_iff)

lemma get_num_detections_fold:
  "fold (\<lambda>i n. case n i of Some k \<Rightarrow> n(i \<mapsto> k + 1) | None \<Rightarrow> n(i \<mapsto> 1)) ss (occurrences seen)
     = occurrences (seen @ ss)"
proof (induction ss arbitrary: seen)
  case Nil
  then show ?case by simp
next
  case (Cons s ss)
  from Cons.IH[of "seen @ [s]"] show ?case
    by (simp add: occurrences_snoc)
qed

lemma get_num_detections_occurrences: "get_num_detections ss = occurrences ss"
proof -
  have "occurrences [] = Map.empty" by (rule ext) (simp add: occurrences_def)
  with get_num_detections_fold[of ss "[]"] show ?thesis
    by (simp add: get_num_detections_def)
qed

lemma sum_count_list: "(\<Sum>c \<in> set ss. count_list ss c) = length ss"
  by (rule sum_count_set) auto

subsection \<open>Variability flags\<close>

lemma flag_inv_step:
  assumes "flag_inv ds vf"
  shows "flag_inv (ds @ [d]) (vf_record (pos d) (brighter d) vf)"
  unfolding flag_inv_def
proof
  fix c
  from assms have inv: "case vf c of
            None \<Rightarrow> c \<notin> pos ` set ds
          | Some (PyBool b) \<Rightarrow> b \<and> c \<in> pos ` set ds \<and> disagree ds c
          | Some (PyInt n) \<Rightarrow> c \<in> pos ` set ds \<and> \<not> disagree ds c \<and>
               (\<forall>d \<in> set ds. pos d = c \<longrightarrow> n = (if brighter d then 1 else 0))"
    unfolding flag_inv_def by blast
  show "case vf_record (pos d) (brighter d) vf c of
            None \<Rightarrow> c \<notin> pos ` set (ds @ [d])
          | Some (PyBool b) \<Rightarrow> b \<and> c \<in> pos ` set (ds @ [d]) \<and> disagree (ds @ [d]) c
          | Some (PyInt n) \<Rightarrow> c \<in> pos ` set (ds @ [d]) \<and> \<not> disagree (ds @ [d]) c \<and>
               (\<forall>d' \<in> set (ds @ [d]). pos d' = c \<longrightarrow> n = (if brighter d' then 1 else 0))"
  proof (cases "c = pos d")
    case False
    then have "vf_record (pos d) (brighter d) vf c = vf c"
      by (auto simp: vf_record_def split: option.splits)
    moreover have "disagree (ds @ [d]) c = disagree ds c"
      using False by (auto simp: disagree_def)
    ultimately show ?thesis using inv False
      by (auto split: option.splits pyval.splits)
  next
    case True
    show ?thesis
    proof (cases "vf c")
      case None
      with inv have "c \<notin> pos ` set ds" by simp
      then have fresh: "\<forall>d' \<in> set ds. pos d' \<noteq> c" by auto
      then have "\<not> disagree (ds @ [d]) c" using True
        unfolding disagree_def by auto
      with None True fresh show ?thesis
        by (auto simp: vf_record_def)
    next
      case (Some v)
      show ?thesis
      proof (cases v)
        case (PyBool b)
        with Some inv have b: "b" and dis: "disagree ds c" by auto
        from dis have "disagree (ds @ [d]) c" by (auto simp: disagree_def)
        with Some PyBool b True show ?thesis
          by (auto simp: vf_record_def py_ne_def)
      next
        case (PyInt n)
        with Some inv have mem: "c \<in> pos ` set ds" and nd: "\<not> disagree ds c"
          and all: "\<forall>d' \<in> set ds. pos d' = c \<longrightarrow> n = (if brighter d' then 1 else 0)"
          by auto
        show ?thesis
        proof (cases "n = (if brighter d then 1 else 0)")
          case same: True
          have all': "\<forall>d' \<in> set (ds @ [d]). pos d' = c \<longrightarrow> n = (if brighter d' then 1 else 0)"
            using all same True by simp
          have nd': "\<not> disagree (ds @ [d]) c"
          proof
            assume "disagree (ds @ [d]) c"
            then obtain d1 d2 where d12: "d1 \<in> set (ds @ [d])" "d2 \<in> set (ds @ [d])"
              "pos d1 = c" "pos d2 = c" "brighter d1 \<noteq> brighter d2"
              unfolding disagree_def by blast
            from all' d12 have "n = (if brighter d1 then 1 else 0)"
              and "n = (if brighter d2 then 1 else 0)" by blast+
            with d12(5) show False by (simp split: if_splits)
          qed
          have val: "vf_record (pos d) (brighter d) vf c = Some (PyInt n)"
            using Some PyInt same True by (simp add: vf_record_def py_ne_def)
          have mem': "c \<in> pos ` set (ds @ [d])" using True by simp
          show ?thesis unfolding val using mem' nd' all' by simp
        next
          case diff: False
          from mem obtain d0 where d0: "d0 \<in> set ds" "pos d0 = c" by auto
          with all have "n = (if brighter d0 then 1 else 0)" by blast
          with diff have "brighter d0 \<noteq> brighter d" by (auto split: if_splits)
          with d0 True have dis': "disagree (ds @ [d]) c"
            unfolding disagree_def by auto
          have val: "vf_record (pos d) (brighter d) vf c = Some (PyBool True)"
            using Some PyInt diff True by (simp add: vf_record_def py_ne_def)
          have mem': "c \<in> pos ` set (ds @ [d])" using True by simp
          show ?thesis unfolding val using mem' dis' by simp
        qed
      qed
    qed
  qed
qed

lemma flag_inv_events: "flag_inv ds (vf_events ds Map.empty)"
proof (induction ds rule: rev_induct)
  case Nil
  then show ?case by (simp add: flag_inv_def vf_events_def)
next
  case (snoc d ds)
  from flag_inv_step[OF snoc] show ?case by (simp add: vf_events_def)
qed

lemma finalize_flags_events:
  "finalize_flags (vf_events ds Map.empty) c =
     (if c \<in> pos ` set ds then Some (PyBool (disagree ds c)) else None)"
proof -
  from flag_inv_events[of ds] have inv: "case vf_events ds Map.empty c of
            None \<Rightarrow> c \<notin> pos ` set ds
          | Some (PyBool b) \<Rightarrow> b \<and> c \<in> pos ` set ds \<and> disagree ds c
          | Some (PyInt n) \<Rightarrow> c \<in> pos ` set ds \<and> \<not> disagree ds c \<and>
               (\<forall>d \<in> set ds. pos d = c \<longrightarrow> n = (if brighter d then 1 else 0))"
    unfolding flag_inv_def by blast
  show ?thesis
  proof (cases "vf_events ds Map.empty c")
    case None
    with inv show ?thesis by (simp add: finalize_flags_def)
  next
    case (Some v)
    with inv show ?thesis by (cases v) (simp_all add: finalize_flags_def)
  qed
qed

lemma clamp_low_done: "2 \<le> py_int p \<Longrightarrow> clamp_low rnd p = Some p"
  by (subst clamp_low.simps) simp

lemma clamp_high_done: "py_int p \<le> 509 \<Longrightarrow> clamp_high rnd p = Some p"
  by (subst clamp_high.simps) simp

lemma clamp_done:
  "2 \<le> py_int px \<Longrightarrow> py_int px \<le> 509 \<Longrightarrow> 2 \<le> py_int py \<Longrightarrow> py_int py \<le> 509 \<Longrightarrow>
     clamp rnd px py = Some (px, py)"
  by (simp add: clamp_def clamp_low_done clamp_high_done)

lemmas cell_eval_defs =
  process_cell_def predicted_def star_grid_def star_cell_def star_image_def zero_cell_def
  clamp_done py_int_def filters_def filter_a_def filter_b_def filter_c_def filter_d_def
  py_and_def bind_def getitem_def np_index_def window_def slice_def slice_norm_def
  np_min_def np_max_def np_abs_def np_where_def refine_def Let_def

lemma star_A:
  "t \<le> 0.95 \<Longrightarrow> 0 \<le> b \<Longrightarrow>
     process_cell (\<lambda>x. x) t 4 star_image (star_grid (star_cell (7 / 2) (5 / 2) b d) q c) 2 2
     = Inr (Some \<lparr>pos = (10, 11), brighter = (b > d), fsign = positive\<rparr>)"
  by (simp add: cell_eval_defs)

lemma star_Q:
  "t \<le> 0.95 \<Longrightarrow> 0 \<le> b \<Longrightarrow>
     process_cell (\<lambda>x. x) t 4 star_image (star_grid a (star_cell (7 / 2) (3 / 2) b d) c) 2 3
     = Inr (Some \<lparr>pos = (13, 11), brighter = (b > d), fsign = positive\<rparr>)"
  by (simp add: cell_eval_defs)

lemma star_B:
  "t \<le> 0.95 \<Longrightarrow> 0 \<le> b \<Longrightarrow>
     process_cell (\<lambda>x. x) t 4 star_image (star_grid a q (star_cell (1 / 4) (5 / 2) b d)) 3 2
     = Inr (Some \<lparr>pos = (10, 11), brighter = (b > d), fsign = positive\<rparr>)"
  by (simp add: cell_eval_defs)

lemma star_edge:
  "t \<le> 0.95 \<Longrightarrow> 0 \<le> b \<Longrightarrow>
     process_cell (\<lambda>x. x) t 4 star_image (star_grid a q (star_cell (7 / 2) (5 / 2) b d)) 3 2
     = Inr (Some \<lparr>pos = (10, 15), brighter = (b > d), fsign = positive\<rparr>)"
  by (simp add: cell_eval_defs)

lemma zero_reject:
  "0 < rnd t \<Longrightarrow> gcell g my mx = zero_cell \<Longrightarrow> process_cell rnd t gs img g mx my = Inr None"
  by (simp add: process_cell_def zero_cell_def)

lemma star_grid_sel:
  "grows (star_grid a q b) = 4" "gcols (star_grid a q b) = 4"
  "gcell (star_grid a q b) 2 2 = a" "gcell (star_grid a q b) 3 2 = q"
  "gcell (star_grid a q b) 2 3 = b"
  "\<not> (my = 2 \<and> mx = 2) \<Longrightarrow> \<not> (my = 3 \<and> mx = 2) \<Longrightarrow> \<not> (my = 2 \<and> mx = 3) \<Longrightarrow>
     gcell (star_grid a q b) my mx = zero_cell"
  by (auto simp: star_grid_def)

lemma upt_0_4: "[0 ..< 4] = [0, 1, 2, 3 :: nat]"
  by code_simp

lemmas frame_eval =
  frame_events_def cell_order_def star_grid_sel upt_0_4 star_A star_Q star_B zero_reject star_cell_def[THEN arg_cong[of _ _ prob]]

lemma pair_events:
  "0 < t \<Longrightarrow> t \<le> 0.95 \<Longrightarrow> frame_events (\<lambda>x. x) t 4 (star_image, pair_grid) =
     [\<lparr>pos = (10, 11), brighter = True, fsign = positive\<rparr>,
      \<lparr>pos = (10, 11), brighter = True, fsign = positive\<rparr>]"
  by (simp add: pair_grid_def frame_eval)

lemma trio_events:
  "0 < t \<Longrightarrow> t \<le> 0.95 \<Longrightarrow> frame_events (\<lambda>x. x) t 4 (star_image, trio_grid) =
     [\<lparr>pos = (10, 11), brighter = True, fsign = positive\<rparr>,
      \<lparr>pos = (13, 11), brighter = True, fsign = positive\<rparr>,
      \<lparr>pos = (10, 11), brighter = True, fsign = positive\<rparr>]"
  by (simp add: trio_grid_def frame_eval)

lemma dim_events:
  "0 < t \<Longrightarrow> t \<le> 0.95 \<Longrightarrow> frame_events (\<lambda>x. x) t 4 (star_image, dim_grid) =
     [\<lparr>pos = (10, 11), brighter = False, fsign = positive\<rparr>]"
  by (simp add: dim_grid_def frame_eval)

lemma find_root_self: "parent x = Some x \<Longrightarrow> find_root parent x = Inr (parent, x)"
  by (simp add: find_root_def find.simps)

lemma find_step:
  "parent x = Some p \<Longrightarrow> p \<noteq> x \<Longrightarrow>
     find parent x = Option.bind (find parent p) (\<lambda>res.
             case res of
               Inl e \<Rightarrow> Some (Inl e)
             | Inr (parent', r) \<Rightarrow> Some (Inr (parent'(x \<mapsto> r), r)))"
  by (subst find.simps) simp

lemmas close_eval =
  close_detect_def close_frame_def dedup_def merge_pass_def merge_row_def merge_step_def
  init_close_objs_def neighbours_def is_close_def append_new_def

lemma close_pair:
  "close_detect [[(10, 11), (10, 11)]] = ([[(10, 11)]], [[[(10, 11)]]])"
  by (simp add: close_eval)


lemma group_pair: "group [[(10, 11)]] = Inr [[(10, 11)]]"
  by (simp add: group_def register_def bind_def find_root_self py_nth_def grouped_update_def
       append_new_def)

lemmas detect_eval =
  detect_def detect_frame_def cell_order_def star_grid_sel upt_0_4 star_A star_Q star_B
  zero_reject star_cell_def[THEN arg_cong[of _ _ prob]] bind_def init_state_def
  record_detection_def

lemma detect_trio_ok: "\<not> isl (detect (\<lambda>x. x) (1 / 2) 4 [(star_image, trio_grid)])"
  by (simp add: trio_grid_def detect_eval)

lemma detect_pair_ok: "\<not> isl (detect (\<lambda>x. x) (1 / 2) 4 [(star_image, pair_grid)])"
  by (simp add: pair_grid_def detect_eval)

lemma detect_variable_ok:
  "\<not> isl (detect (\<lambda>x. x) (1 / 2) 4 [(star_image, pair_grid), (star_image, dim_grid)])"
  by (simp add: pair_grid_def dim_grid_def detect_eval)

lemma not_isl_projr: "\<not> isl m \<Longrightarrow> m = Inr (projr m)"
  by (cases m) simp_all

text \<open>
  C8. After \<^verbatim>\<open>detect\<close> completes, the identifier of a detected position is the number
  of distinct positions seen before its first occurrence in \<^verbatim>\<open>sources\<close> (so identifiers
  are given in first-encounter order, starting at 0), the identifiers are exactly
  \<open>0, ..., k - 1\<close> for \<open>k\<close> distinct positions, and no two positions share one.
\<close>

theorem sourceID_first_seen_dense:
  assumes "detect rnd threshold grid_size frs = Inr out"
  shows "(\<forall>c. sourceID out c =
            (if c \<in> set (sources out)
             then Some (card (set (takeWhile (\<lambda>x. x \<noteq> c) (sources out)))) else None)) \<and>
         ran (sourceID out) = {0 ..< card (set (sources out))} \<and>
         inj_on (sourceID out) (set (sources out))"
proof -
  have id: "sourceID out = first_rank (sources out)"
    using detect_events(4)[OF assms] by (simp add: assign_ids_first_rank)
  have "inj_on (first_rank (sources out)) (set (sources out))"
  proof (rule inj_onI)
    fix c c' assume c: "c \<in> set (sources out)" and "c' \<in> set (sources out)"
      and eq: "first_rank (sources out) c = first_rank (sources out) c'"
    from c obtain i where i: "first_rank (sources out) c = Some i" by (simp add: first_rank_def)
    then have "first_rank (sources out) c' = Some i" by (simp only: eq[symmetric])
    with i show "c = c'" by (rule first_rank_inj)
  qed
  then have 3: "inj_on (sourceID out) (set (sources out))" by (simp only: id)
  have 1: "\<forall>c. sourceID out c =
            (if c \<in> set (sources out)
             then Some (card (set (takeWhile (\<lambda>x. x \<noteq> c) (sources out)))) else None)"
    by (simp only: id first_rank_def) simp
  have 2: "ran (sourceID out) = {0 ..< card (set (sources out))}"
    by (simp only: id first_rank_ran)
  from 1 2 3 show ?thesis by blast
qed

theorem sourceID_first_seen_dense_witness:
  "\<not> isl (detect (\<lambda>x. x) (1 / 2) 4 [(star_image, trio_grid)]) \<and>
   sources (projr (detect (\<lambda>x. x) (1 / 2) 4 [(star_image, trio_grid)]))
     = [(10, 11), (13, 11), (10, 11)] \<and>
   sourceID (projr (detect (\<lambda>x. x) (1 / 2) 4 [(star_image, trio_grid)])) (10, 11) = Some 0 \<and>
   sourceID (projr (detect (\<lambda>x. x) (1 / 2) 4 [(star_image, trio_grid)])) (13, 11) = Some 1 \<and>
   ran (sourceID (projr (detect (\<lambda>x. x) (1 / 2) 4 [(star_image, trio_grid)]))) = {0 ..< 2}"
proof -
  let ?out = "projr (detect (\<lambda>x. x) (1 / 2) 4 [(star_image, trio_grid)])"
  have h: "detect (\<lambda>x. x) (1 / 2) 4 [(star_image, trio_grid)] = Inr ?out"
    using detect_trio_ok by (rule not_isl_projr)
  have src: "sources ?out = [(10, 11), (13, 11), (10, 11)]"
    using detect_events(1)[OF h] by (simp add: all_events_def trio_events)
  have card2: "card (set [(10 :: int, 11 :: int), (13, 11), (10, 11)]) = 2"
    by (simp add: card_insert_if)
  note th = sourceID_first_seen_dense[OF h]
  from th have all: "\<And>c. sourceID ?out c =
            (if c \<in> set (sources ?out)
             then Some (card (set (takeWhile (\<lambda>x. x \<noteq> c) (sources ?out)))) else None)"
    by blast
  from th have rn: "ran (sourceID ?out) = {0 ..< card (set (sources ?out))}" by blast
  have a: "sourceID ?out (10, 11) = Some 0"
    by (simp only: all[of "(10, 11)"] src) simp
  have b: "sourceID ?out (13, 11) = Some 1"
    by (simp only: all[of "(13, 11)"] src) simp
  have c: "ran (sourceID ?out) = {0 ..< 2}"
    by (simp only: rn src card2)
  from a b c src detect_trio_ok show ?thesis by blast
qed

text \<open>
  C6. After \<^verbatim>\<open>detect\<close> completes, \<^verbatim>\<open>variable_flag\<close> holds a boolean for every detected
  position and nothing else; it is \<^verbatim>\<open>True\<close> exactly when two detections at that position
  disagree in the comparison \<^verbatim>\<open>bright > dim\<close>, and \<^verbatim>\<open>False\<close> otherwise (one detection,
  or all agreeing).
\<close>

theorem variable_flag_final:
  assumes "detect rnd threshold grid_size frs = Inr out"
  shows "variable_flag out c =
           (if c \<in> set (sources out)
            then Some (PyBool (disagree (all_events rnd threshold grid_size frs) c))
            else None)"
  using detect_events(1,2)[OF assms] by (simp add: finalize_flags_events)

theorem variable_flag_final_witness:
  "\<not> isl (detect (\<lambda>x. x) (1 / 2) 4 [(star_image, pair_grid), (star_image, dim_grid)]) \<and>
   variable_flag (projr (detect (\<lambda>x. x) (1 / 2) 4 [(star_image, pair_grid), (star_image, dim_grid)]))
     (10, 11) = Some (PyBool True) \<and>
   variable_flag (projr (detect (\<lambda>x. x) (1 / 2) 4 [(star_image, pair_grid), (star_image, dim_grid)]))
     (13, 11) = None \<and>
   variable_flag (projr (detect (\<lambda>x. x) (1 / 2) 4 [(star_image, pair_grid)])) (10, 11)
     = Some (PyBool False)"
proof -
  let ?frs = "[(star_image, pair_grid), (star_image, dim_grid)]"
  let ?out = "projr (detect (\<lambda>x. x) (1 / 2) 4 ?frs)"
  let ?out1 = "projr (detect (\<lambda>x. x) (1 / 2) 4 [(star_image, pair_grid)])"
  have h: "detect (\<lambda>x. x) (1 / 2) 4 ?frs = Inr ?out"
    using detect_variable_ok by (rule not_isl_projr)
  have h1: "detect (\<lambda>x. x) (1 / 2) 4 [(star_image, pair_grid)] = Inr ?out1"
    using detect_pair_ok by (rule not_isl_projr)
  have src: "sources ?out = [(10, 11), (10, 11), (10, 11)]"
    using detect_events(1)[OF h] by (simp add: all_events_def pair_events dim_events)
  have src1: "sources ?out1 = [(10, 11), (10, 11)]"
    using detect_events(1)[OF h1] by (simp add: all_events_def pair_events)
  have a: "variable_flag ?out (10, 11) = Some (PyBool True)"
    using variable_flag_final[OF h, of "(10, 11)"] src
    by (simp add: all_events_def pair_events dim_events disagree_def)
  have b: "variable_flag ?out (13, 11) = None"
    using variable_flag_final[OF h, of "(13, 11)"] src by simp
  have c: "variable_flag ?out1 (10, 11) = Some (PyBool False)"
    using variable_flag_final[OF h1, of "(10, 11)"] src1
    by (simp add: all_events_def pair_events disagree_def)
  from a b c detect_variable_ok show ?thesis by simp
qed

subsection \<open>The pipeline, step by step\<close>

lemma pipeline_Inr:
  assumes "pipeline rnd t gs frs = Inr r"
  shows "detect rnd t gs frs = Inr (det r)"
    and "close_sources r = fst (close_detect (sources_by_frame (det r)))"
    and "close_sources_by_frame r = snd (close_detect (sources_by_frame (det r)))"
    and "group (close_sources r) = Inr (groups (grp r))"
    and "groupID (grp r) = IDassign (groups (grp r)) (sources (det r))"
    and "n_detections (grp r) = get_num_detections (sources (det r))"
proof -
  from assms obtain d g where d: "detect rnd t gs frs = Inr d"
    and g: "group_and_id (fst (close_detect (sources_by_frame d))) (sources d) = Inr g"
    and r: "r = \<lparr>det = d, close_sources = fst (close_detect (sources_by_frame d)),
                close_sources_by_frame = snd (close_detect (sources_by_frame d)), grp = g\<rparr>"
    unfolding pipeline_def bind_Inr_iff Let_def by auto
  from g obtain gs' where gs': "group (fst (close_detect (sources_by_frame d))) = Inr gs'"
    and g': "g = \<lparr>groups = gs', groupID = IDassign gs' (sources d),
                  n_detections = get_num_detections (sources d)\<rparr>"
    unfolding group_and_id_def bind_Inr_iff by auto
  show "detect rnd t gs frs = Inr (det r)"
    and "close_sources r = fst (close_detect (sources_by_frame (det r)))"
    and "close_sources_by_frame r = snd (close_detect (sources_by_frame (det r)))"
    and "group (close_sources r) = Inr (groups (grp r))"
    and "groupID (grp r) = IDassign (groups (grp r)) (sources (det r))"
    and "n_detections (grp r) = get_num_detections (sources (det r))"
    using d gs' by (simp_all add: r g')
qed

lemma pipeline_ok:
  assumes "detect rnd t gs frs = Inr d"
    and "group (fst (close_detect (sources_by_frame d))) = Inr gs'"
  shows "\<not> isl (pipeline rnd t gs frs)"
  using assms by (simp add: pipeline_def group_and_id_def bind_def Let_def)

lemma detect_pair_sbf:
  "sources_by_frame (projr (detect (\<lambda>x. x) (1 / 2) 4 [(star_image, pair_grid)]))
     = [[(10, 11), (10, 11)]]"
  using detect_events(3)[OF not_isl_projr[OF detect_pair_ok]]
  by (simp add: pair_events)

lemma pipeline_pair_ok: "\<not> isl (pipeline (\<lambda>x. x) (1 / 2) 4 [(star_image, pair_grid)])"
  by (rule pipeline_ok[OF not_isl_projr[OF detect_pair_ok]])
     (simp add: detect_pair_sbf close_pair group_pair)

subsection \<open>Detection counts of a run\<close>

lemma count_list_insort: "count_list (insort x xs) c = count_list (x # xs) c"
  by (induction xs) auto

lemma count_list_sort: "count_list (sort xs) c = count_list xs c"
  by (induction xs) (simp_all add: count_list_insort)

lemma count_list_concat:
  "count_list (concat xss) c = sum_list (map (\<lambda>xs. count_list xs c) xss)"
  by (induction xss) simp_all

lemma count_by_frame:
  assumes "detect rnd t gs frs = Inr out"
  shows "count_list (sources out) c =
           sum_list (map (\<lambda>positions. count_list positions c) (sources_by_frame out))"
  using detect_events(1,3)[OF assms]
  by (simp add: all_events_def map_concat count_list_concat comp_def count_list_sort)

text \<open>
  C7, as the code has it. After the pipeline, \<^verbatim>\<open>n_detections\<close> maps every detected
  position to its number of occurrences in the flat list \<^verbatim>\<open>sources\<close>, that is to the
  number of detections at it summed over the frames (a frame in which two grid cells yield
  the same position counts twice); no other position has an entry; and the counts add up
  to the length of \<^verbatim>\<open>sources\<close>.
\<close>

theorem n_detections_counts_occurrences:
  assumes "pipeline rnd threshold grid_size frs = Inr r"
  shows "n_detections (grp r) c =
           (if c \<in> set (sources (det r)) then Some (count_list (sources (det r)) c) else None) \<and>
         count_list (sources (det r)) c =
           sum_list (map (\<lambda>positions. count_list positions c) (sources_by_frame (det r))) \<and>
         (\<Sum>c' \<in> set (sources (det r)). the (n_detections (grp r) c')) = length (sources (det r))"
proof -
  have n: "n_detections (grp r) = occurrences (sources (det r))"
    using pipeline_Inr(6)[OF assms] by (simp add: get_num_detections_occurrences)
  have "(\<Sum>c' \<in> set (sources (det r)). the (occurrences (sources (det r)) c'))
          = (\<Sum>c' \<in> set (sources (det r)). count_list (sources (det r)) c')"
    by (rule sum.cong) (simp_all add: occurrences_def)
  then have s: "(\<Sum>c' \<in> set (sources (det r)). the (n_detections (grp r) c'))
                  = length (sources (det r))"
    by (simp only: n sum_count_list)
  have o: "n_detections (grp r) c =
           (if c \<in> set (sources (det r)) then Some (count_list (sources (det r)) c) else None)"
    by (simp only: n occurrences_def)
  from o s count_by_frame[OF pipeline_Inr(1)[OF assms]] show ?thesis by blast
qed

theorem n_detections_counts_occurrences_witness:
  "\<not> isl (pipeline (\<lambda>x. x) (1 / 2) 4 [(star_image, pair_grid)]) \<and>
   sources (det (projr (pipeline (\<lambda>x. x) (1 / 2) 4 [(star_image, pair_grid)])))
     = [(10, 11), (10, 11)] \<and>
   n_detections (grp (projr (pipeline (\<lambda>x. x) (1 / 2) 4 [(star_image, pair_grid)]))) (10, 11)
     = Some 2 \<and>
   n_detections (grp (projr (pipeline (\<lambda>x. x) (1 / 2) 4 [(star_image, pair_grid)]))) (13, 11)
     = None"
proof -
  let ?r = "projr (pipeline (\<lambda>x. x) (1 / 2) 4 [(star_image, pair_grid)])"
  have h: "pipeline (\<lambda>x. x) (1 / 2) 4 [(star_image, pair_grid)] = Inr ?r"
    using pipeline_pair_ok by (rule not_isl_projr)
  have src: "sources (det ?r) = [(10, 11), (10, 11)]"
    using detect_events(1)[OF pipeline_Inr(1)[OF h]] by (simp add: all_events_def pair_events)
  have a: "n_detections (grp ?r) (10, 11) = Some 2"
    using n_detections_counts_occurrences[OF h, of "(10, 11)"] by (simp add: src)
  have b: "n_detections (grp ?r) (13, 11) = None"
    using n_detections_counts_occurrences[OF h, of "(13, 11)"] by (simp add: src)
  from a b src pipeline_pair_ok show ?thesis by blast
qed

text \<open>
  C7, as the claim states it, fails: in one frame two neighbouring grid cells refine to the
  same brightest pixel \<open>(10, 11)\<close>, so the position is detected in one frame and counted
  twice.
\<close>

theorem n_detections_not_frames_counterexample:
  "\<not> isl (pipeline (\<lambda>x. x) (1 / 2) 4 [(star_image, pair_grid)]) \<and>
   n_detections (grp (projr (pipeline (\<lambda>x. x) (1 / 2) 4 [(star_image, pair_grid)]))) (10, 11)
     = Some 2 \<and>
   frames_detecting
     (sources_by_frame (det (projr (pipeline (\<lambda>x. x) (1 / 2) 4 [(star_image, pair_grid)]))))
     (10, 11) = 1"
proof -
  let ?r = "projr (pipeline (\<lambda>x. x) (1 / 2) 4 [(star_image, pair_grid)])"
  have h: "pipeline (\<lambda>x. x) (1 / 2) 4 [(star_image, pair_grid)] = Inr ?r"
    using pipeline_pair_ok by (rule not_isl_projr)
  have d: "detect (\<lambda>x. x) (1 / 2) 4 [(star_image, pair_grid)] = Inr (det ?r)"
    by (rule pipeline_Inr(1)[OF h])
  have src: "sources (det ?r) = [(10, 11), (10, 11)]"
    using detect_events(1)[OF d] by (simp add: all_events_def pair_events)
  have sbf: "sources_by_frame (det ?r) = [[(10, 11), (10, 11)]]"
    using detect_events(3)[OF d] by (simp add: pair_events)
  have a: "n_detections (grp ?r) (10, 11) = Some 2"
    by (simp add: pipeline_Inr(6)[OF h] src get_num_detections_def)
  have b: "frames_detecting (sources_by_frame (det ?r)) (10, 11) = 1"
    by (simp add: sbf frames_detecting_def)
  from a b pipeline_pair_ok show ?thesis by blast
qed

subsection \<open>unique_detect\<close>

text \<open>
  C2 (a defect of the code). The loop over the close-groups of frame \<open>s\<close> runs over
  \<^verbatim>\<open>range(0, len(self.close_sources[s]))\<close>, the number of members of the \<open>s\<close>-th entry of
  the flat list \<^verbatim>\<open>close_sources\<close>, and not over the groups of the frame. With one frame
  holding one close pair the index 1 is out of range; with one frame holding three close
  pairs the third group is never looked at and its second member is kept.
\<close>

theorem unique_detect_wrong_range:
  "unique_detect [[(10, 11), (13, 11)]] (close_detect [[(10, 11), (13, 11)]]) = Inl IndexError \<and>
   unique_detect [[(0, 0), (1, 1), (10, 10), (11, 11), (20, 20), (21, 21)]]
     (close_detect [[(0, 0), (1, 1), (10, 10), (11, 11), (20, 20), (21, 21)]])
     = Inr [[(0, 0), (10, 10), (20, 20), (21, 21)]]"
proof -
  have c1: "close_detect [[(10, 11), (13, 11)]] = ([[(10, 11), (13, 11)]], [[[(10, 11), (13, 11)]]])"
    by (simp add: close_eval)
  have c2: "close_detect [[(0, 0), (1, 1), (10, 10), (11, 11), (20, 20), (21, 21)]]
    = ([[(0, 0), (1, 1)], [(10, 10), (11, 11)], [(20, 20), (21, 21)]],
       [[[(0, 0), (1, 1)], [(10, 10), (11, 11)], [(20, 20), (21, 21)]]])"
    by (simp add: close_eval)
  show ?thesis
    by (simp add: c1 c2 unique_detect_def unique_frame_def py_nth_def bind_def)
qed

subsection \<open>The clamp\<close>

lemma float_rounding_id: "float_rounding (\<lambda>x. x)"
  by (simp add: float_rounding_def)

lemma float_rounding_508:
  assumes "float_rounding rnd" "508 \<le> x"
  shows "508 \<le> rnd x"
proof -
  from assms(1) have "rnd (real_of_int 508) = real_of_int 508"
    unfolding float_rounding_def by (elim conjE allE[of _ "508 :: int"]) simp
  moreover from assms have "rnd 508 \<le> rnd x"
    unfolding float_rounding_def by blast
  ultimately show ?thesis by simp
qed

lemma py_int_gt_509: "509 < py_int p \<longleftrightarrow> 510 \<le> p"
  by (auto simp: py_int_def)

lemma py_int_lt_2: "py_int p < 2 \<longleftrightarrow> p < 2"
  by (auto simp: py_int_def)

lemma clamp_low_ge:
  assumes "clamp_low rnd p = Some q"
  shows "2 \<le> py_int q"
  by (rule clamp_low.raw_induct[where P = "\<lambda>rnd p q. 2 \<le> py_int q", OF _ assms])
     (auto split: if_splits)

lemma clamp_high_le:
  assumes "clamp_high rnd p = Some q"
  shows "py_int q \<le> 509"
  by (rule clamp_high.raw_induct[where P = "\<lambda>rnd p q. py_int q \<le> 509", OF _ assms])
     (auto split: if_splits)

lemma clamp_high_ge_aux:
  assumes "clamp_high rnd p = Some q"
  shows "float_rounding rnd \<longrightarrow> 2 \<le> py_int p \<longrightarrow> 2 \<le> py_int q"
proof (rule clamp_high.raw_induct[where
         P = "\<lambda>rnd p q. float_rounding rnd \<longrightarrow> 2 \<le> py_int p \<longrightarrow> 2 \<le> py_int q",
         OF _ assms])
  fix h :: "(real \<Rightarrow> real) \<Rightarrow> real \<Rightarrow> real option" and rnd p q
  assume IH: "\<And>rnd p q. h rnd p = Some q \<Longrightarrow>
                 float_rounding rnd \<longrightarrow> 2 \<le> py_int p \<longrightarrow> 2 \<le> py_int q"
    and step: "(if 509 < py_int p then h rnd (rnd (p - 2)) else Some p) = Some q"
  show "float_rounding rnd \<longrightarrow> 2 \<le> py_int p \<longrightarrow> 2 \<le> py_int q"
  proof (intro impI)
    assume fr: "float_rounding rnd" and p: "2 \<le> py_int p"
    show "2 \<le> py_int q"
    proof (cases "509 < py_int p")
      case True
      then have "508 \<le> p - 2" by (simp add: py_int_gt_509)
      with fr have "508 \<le> rnd (p - 2)" by (rule float_rounding_508)
      then have "\<not> rnd (p - 2) < 2" by simp
      then have "2 \<le> py_int (rnd (p - 2))" using py_int_lt_2[of "rnd (p - 2)"] by simp
      moreover from True step have "h rnd (rnd (p - 2)) = Some q" by simp
      ultimately show ?thesis using IH fr by blast
    next
      case False
      with step p show ?thesis by simp
    qed
  qed
qed

lemma clamp_high_ge:
  "clamp_high rnd p = Some q \<Longrightarrow> float_rounding rnd \<Longrightarrow> 2 \<le> py_int p \<Longrightarrow> 2 \<le> py_int q"
  using clamp_high_ge_aux by blast

lemma clamp_bounds:
  assumes "float_rounding rnd" "clamp rnd px py = Some (qx, qy)"
  shows "2 \<le> py_int qx \<and> py_int qx \<le> 509 \<and> 2 \<le> py_int qy \<and> py_int qy \<le> 509"
proof -
  from assms(2) obtain py1 px1 where
    a: "clamp_low rnd py = Some py1" and b: "clamp_low rnd px = Some px1"
    and c: "clamp_high rnd py1 = Some qy" and d: "clamp_high rnd px1 = Some qx"
    unfolding clamp_def by (auto simp: bind_eq_Some_conv)
  from clamp_low_ge[OF a] clamp_low_ge[OF b] clamp_high_le[OF c] clamp_high_le[OF d]
    clamp_high_ge[OF c assms(1)] clamp_high_ge[OF d assms(1)]
  show ?thesis by blast
qed

subsection \<open>The intensity filters\<close>

lemma slice_nonneg:
  "0 \<le> lo \<Longrightarrow> 0 \<le> hi \<Longrightarrow> slice n lo hi = [min lo (int n) .. min hi (int n) - 1]"
  by (simp add: slice_def slice_norm_def)

lemma set_slice_window:
  assumes "0 \<le> k" "k \<le> r"
  shows "set (slice n (r - k) (r + k + 1)) = {max 0 (r - k) .. min (r + k) (int n - 1)}"
  using assms by (auto simp: slice_nonneg)

lemma set_concat_window:
  assumes "0 \<le> k" "k \<le> r" "k \<le> c"
  shows "set (concat (window img r c k)) = neighbourhood img r c k"
  using assms
  by (auto simp: window_def neighbourhood_def set_slice_window simp del: set_upto)

lemma neighbourhood_finite: "finite (neighbourhood img r c k)"
  by (simp add: neighbourhood_def)

lemma neighbourhood_centre:
  assumes "in_bounds img r c" "0 \<le> k"
  shows "pixel img r c \<in> neighbourhood img r c k"
  using assms unfolding neighbourhood_def in_bounds_def
  by (intro image_eqI[of _ _ "(r, c)"]) auto

lemma np_min_Min:
  assumes "concat w \<noteq> []"
  shows "np_min w = Inr (Min (set (concat w)))"
proof -
  from assms obtain v vs where c: "concat w = v # vs" by (cases "concat w") auto
  have "Min (set (v # vs)) = fold min vs v" by (rule Min.set_eq_fold)
  with c show ?thesis by (simp add: np_min_def)
qed

lemma np_max_Max:
  assumes "concat w \<noteq> []"
  shows "np_max w = Inr (Max (set (concat w)))"
proof -
  from assms obtain v vs where c: "concat w = v # vs" by (cases "concat w") auto
  have "Max (set (v # vs)) = fold max vs v" by (rule Max.set_eq_fold)
  with c show ?thesis by (simp add: np_max_def)
qed

lemma window_nonempty:
  assumes "in_bounds img r c" "0 \<le> k" "k \<le> r" "k \<le> c"
  shows "concat (window img r c k) \<noteq> []"
proof -
  from neighbourhood_centre[OF assms(1,2)] set_concat_window[OF assms(2,3,4), of img]
  have mem: "pixel img r c \<in> set (concat (window img r c k))" by simp
  show ?thesis
  proof
    assume "concat (window img r c k) = []"
    with mem show False by (simp only: list.set empty_iff)
  qed
qed

lemma window_min:
  assumes "in_bounds img r c" "0 \<le> k" "k \<le> r" "k \<le> c"
  shows "np_min (window img r c k) = Inr (Min (neighbourhood img r c k))"
  using np_min_Min[OF window_nonempty[OF assms]] set_concat_window[OF assms(2,3,4), of img]
  by simp

lemma window_max:
  assumes "in_bounds img r c" "0 \<le> k" "k \<le> r" "k \<le> c"
  shows "np_max (window img r c k) = Inr (Max (neighbourhood img r c k))"
  using np_max_Max[OF window_nonempty[OF assms]] set_concat_window[OF assms(2,3,4), of img]
  by simp

lemma concat_np_abs: "concat (np_abs w) = map abs (concat w)"
  by (simp add: np_abs_def map_concat)

lemma window_max_abs:
  assumes "in_bounds img r c" "0 \<le> k" "k \<le> r" "k \<le> c"
  shows "np_max (np_abs (window img r c k)) = Inr (Max (abs ` neighbourhood img r c k))"
proof -
  have "concat (np_abs (window img r c k)) \<noteq> []"
    using window_nonempty[OF assms] by (simp add: concat_np_abs)
  from np_max_Max[OF this] set_concat_window[OF assms(2,3,4), of img]
  show ?thesis by (simp add: concat_np_abs)
qed

lemma getitem_nonneg:
  assumes "0 \<le> r" "0 \<le> c"
  shows "getitem img r c = (if in_bounds img r c then Inr (pixel img r c) else Inl IndexError)"
  using assms by (auto simp: getitem_def np_index_def in_bounds_def)

lemma filter_a_char:
  assumes "0 \<le> r" "0 \<le> c"
  shows "filter_a img r c =
           (if in_bounds img r c then Inr (- 1.5 < pixel img r c \<and> pixel img r c < 1.5)
            else Inl IndexError)"
  by (simp add: filter_a_def py_and_def bind_def getitem_nonneg[OF assms])

lemma filter_b_char:
  assumes "in_bounds img r c" "1 \<le> r" "1 \<le> c"
  shows "filter_b img r c =
           Inr (- 1.5 < Min (neighbourhood img r c 1) \<and> Max (neighbourhood img r c 1) < 1.5)"
  using assms by (simp add: filter_b_def py_and_def bind_def window_min window_max)

lemma filter_c_char:
  assumes "in_bounds img r c" "2 \<le> r" "2 \<le> c"
  shows "filter_c img r c =
           Inr (7.5 < Max (neighbourhood img r c 2) \<and> Min (neighbourhood img r c 2) < - 7.5)"
  using assms by (simp add: filter_c_def py_and_def bind_def window_min window_max)

lemma filter_d_char:
  assumes "in_bounds img r c" "1 \<le> r" "1 \<le> c"
  shows "filter_d img r c = Inr (Max (abs ` neighbourhood img r c 1) < 10)"
  using assms by (simp add: filter_d_def bind_def window_max_abs)

lemma np_where_mem:
  "ij \<in> set (np_where w m) \<Longrightarrow>
     \<exists>i j. ij = (int i, int j) \<and> i < length w \<and> j < length (w ! i) \<and> w ! i ! j = m"
  by (auto simp: np_where_def)

lemma np_where_nonempty:
  assumes "m \<in> set (concat w)"
  shows "np_where w m \<noteq> []"
proof -
  from assms obtain xs where xs: "xs \<in> set w" "m \<in> set xs" by auto
  then obtain i j where i: "i < length w" "w ! i = xs" and j: "j < length xs" "xs ! j = m"
    by (auto simp: in_set_conv_nth)
  then have "(int i, int j) \<in> set (np_where w m)"
    by (auto simp: np_where_def)
  then show ?thesis by auto
qed

lemma slice_window_nth:
  assumes "1 \<le> r" "i < length (slice n (r - 1) (r + 1 + 1))"
  shows "slice n (r - 1) (r + 1 + 1) ! i = r + int i - 1"
    and "0 \<le> r + int i - 1" and "r + int i - 1 < int n" and "\<bar>r + int i - 1 - r\<bar> \<le> 1"
proof -
  have sl: "slice n (r - 1) (r + 1 + 1) = [min (r - 1) (int n) .. min (r + 2) (int n) - 1]"
    using assms(1) by (simp add: slice_nonneg add.commute)
  from assms(2) have len: "int i < min (r + 2) (int n) - min (r - 1) (int n)"
    unfolding sl by simp
  then have lt: "r - 1 < int n" by (auto simp: min_def split: if_splits)
  then have mn: "min (r - 1) (int n) = r - 1" by simp
  show "slice n (r - 1) (r + 1 + 1) ! i = r + int i - 1"
    using len unfolding sl mn by (subst nth_upto) auto
  show "0 \<le> r + int i - 1" using assms(1) by simp
  show "r + int i - 1 < int n" using len unfolding mn by auto
  show "\<bar>r + int i - 1 - r\<bar> \<le> 1" using len unfolding mn by auto
qed

lemma refine_char:
  assumes ib: "in_bounds img r c" and r: "1 \<le> r" and c: "1 \<le> c"
  shows "\<exists>d. refine img ch r c = Inr (Some d) \<and>
              \<bar>fst (pos d) - r\<bar> \<le> 1 \<and> \<bar>snd (pos d) - c\<bar> \<le> 1 \<and>
              in_bounds img (fst (pos d)) (snd (pos d)) \<and>
              \<bar>pixel img (fst (pos d)) (snd (pos d))\<bar> = Max (abs ` neighbourhood img r c 1) \<and>
              brighter d = (bright ch > dim ch)"
proof -
  let ?rows = "slice (nrows img) (r - 1) (r + 1 + 1)"
  let ?cols = "slice (ncols img) (c - 1) (c + 1 + 1)"
  let ?w = "np_abs (window img r c 1)"
  let ?m = "Max (abs ` neighbourhood img r c 1)"
  have w: "?w = map (\<lambda>i. map (\<lambda>j. \<bar>pixel img i j\<bar>) ?cols) ?rows"
    by (simp add: np_abs_def window_def comp_def)
  have mx: "np_max ?w = Inr ?m" using ib r c by (simp add: window_max_abs)
  have ne: "concat ?w \<noteq> []"
    using window_nonempty[OF ib, of 1] r c by (simp add: concat_np_abs)
  have set_w: "set (concat ?w) = abs ` neighbourhood img r c 1"
    using set_concat_window[of 1 r c img] r c by (simp add: concat_np_abs)
  have "?m \<in> set (concat ?w)"
    unfolding set_w using ne set_w by (intro Max_in) (auto simp: neighbourhood_finite)
  from np_where_nonempty[OF this] obtain ij rest where wh: "np_where ?w ?m = ij # rest"
    by (cases "np_where ?w ?m") auto
  then have "ij \<in> set (np_where ?w ?m)" by simp
  from np_where_mem[OF this] obtain i j where ij: "ij = (int i, int j)"
    and i: "i < length ?w" and j: "j < length (?w ! i)" and v: "?w ! i ! j = ?m" by blast
  from i have i': "i < length ?rows" by (simp add: w)
  from j i' have j': "j < length ?cols" by (simp add: w)
  note ri = slice_window_nth[OF r i']
  note cj = slice_window_nth[OF c j']
  have val: "\<bar>pixel img (r + int i - 1) (c + int j - 1)\<bar> = ?m"
    using v i' j' ri(1) cj(1) by (simp add: w)
  have ib': "in_bounds img (r + int i - 1) (c + int j - 1)"
    using ri(2,3) cj(2,3) by (simp add: in_bounds_def)
  have gi: "getitem img (r + int i - 1) (c + int j - 1) = Inr (pixel img (r + int i - 1) (c + int j - 1))"
    using getitem_nonneg[OF ri(2) cj(2), of img] ib' by simp
  let ?d = "\<lparr>pos = (r + int i - 1, c + int j - 1), brighter = (bright ch > dim ch),
              fsign = (if pixel img (r + int i - 1) (c + int j - 1) > 0 then positive else negative)\<rparr>"
  have "refine img ch r c = Inr (Some ?d)"
    by (simp add: refine_def Let_def mx bind_def wh ij gi)
  moreover have "\<bar>fst (pos ?d) - r\<bar> \<le> 1" "\<bar>snd (pos ?d) - c\<bar> \<le> 1"
    using ri(4) cj(4) by simp_all
  ultimately show ?thesis using ib' val by (intro exI[of _ ?d]) simp
qed

lemma filters_char:
  assumes r: "2 \<le> r" and c: "2 \<le> c"
  shows "(\<not> in_bounds img r c \<longrightarrow> filters img ch r c = Inl IndexError) \<and>
         (in_bounds img r c \<and> \<not> passes_filters img r c \<longrightarrow> filters img ch r c = Inr None) \<and>
         (passes_filters img r c \<longrightarrow> filters img ch r c = refine img ch r c)"
proof (cases "in_bounds img r c")
  case False
  then show ?thesis using r c
    by (simp add: filters_def filter_a_char bind_def passes_filters_def)
next
  case True
  then show ?thesis using r c
    by (simp add: filters_def filter_a_char filter_b_char filter_c_char filter_d_char bind_def
          passes_filters_def)
qed

subsection \<open>One grid cell\<close>

lemma process_cell_cases:
  assumes fr: "float_rounding rnd"
  shows "process_cell rnd threshold grid_size img g mx my =
    (if prob (gcell g my mx) < rnd threshold then Inr None
     else if trash (gcell g my mx) > bright (gcell g my mx) \<and>
             trash (gcell g my mx) > dim (gcell g my mx) then Inr None
     else case clamp rnd (fst (predicted rnd grid_size (gcell g my mx) mx my))
                         (snd (predicted rnd grid_size (gcell g my mx) mx my)) of
       None \<Rightarrow> Inl Diverges
     | Some (px, py) \<Rightarrow>
         if \<not> in_bounds img (py_int py) (py_int px) then Inl IndexError
         else if \<not> passes_filters img (py_int py) (py_int px) then Inr None
         else refine img (gcell g my mx) (py_int py) (py_int px))"
proof -
  let ?ch = "gcell g my mx"
  have "filters img ?ch (py_int py) (py_int px) =
         (if \<not> in_bounds img (py_int py) (py_int px) then Inl IndexError
          else if \<not> passes_filters img (py_int py) (py_int px) then Inr None
          else refine img ?ch (py_int py) (py_int px))"
    if "clamp rnd (fst (predicted rnd grid_size ?ch mx my))
                  (snd (predicted rnd grid_size ?ch mx my)) = Some (px, py)" for px py
  proof -
    from clamp_bounds[OF fr that] have "2 \<le> py_int py" "2 \<le> py_int px" by simp_all
    from filters_char[OF this, of img ?ch] show ?thesis
      by (auto simp: passes_filters_def)
  qed
  then show ?thesis
    by (auto simp: process_cell_def Let_def split: option.splits)
qed

text \<open>
  C4, as the code has it. A grid cell yields a detection exactly when its probability is
  at least the threshold rounded to the float format of the network output (the threshold
  itself when it is a float of that format), its trash score does not exceed both \<open>bright\<close>
  and \<open>dim\<close>, and the clamped pixel can be read and passes the four intensity filters. The
  checks are made in this order: a cell below the rounded threshold or spurious is skipped
  whatever the clamp and the image do, and a cell is skipped without error exactly in the
  three ways listed.
\<close>

theorem detection_iff_rounded_threshold_and_filters:
  assumes "float_rounding rnd"
  shows
    "((\<exists>d. process_cell rnd threshold grid_size img g mx my = Inr (Some d)) \<longleftrightarrow>
        rnd threshold \<le> prob (gcell g my mx) \<and>
        \<not> (trash (gcell g my mx) > bright (gcell g my mx) \<and>
           trash (gcell g my mx) > dim (gcell g my mx)) \<and>
        (\<exists>px py. clamp rnd (fst (predicted rnd grid_size (gcell g my mx) mx my))
                          (snd (predicted rnd grid_size (gcell g my mx) mx my)) = Some (px, py) \<and>
                 passes_filters img (py_int py) (py_int px))) \<and>
     (process_cell rnd threshold grid_size img g mx my = Inr None \<longleftrightarrow>
        prob (gcell g my mx) < rnd threshold \<or>
        (trash (gcell g my mx) > bright (gcell g my mx) \<and>
         trash (gcell g my mx) > dim (gcell g my mx)) \<or>
        (\<exists>px py. clamp rnd (fst (predicted rnd grid_size (gcell g my mx) mx my))
                          (snd (predicted rnd grid_size (gcell g my mx) mx my)) = Some (px, py) \<and>
                 in_bounds img (py_int py) (py_int px) \<and>
                 \<not> passes_filters img (py_int py) (py_int px)))"
proof -
  let ?ch = "gcell g my mx"
  let ?cl = "clamp rnd (fst (predicted rnd grid_size ?ch mx my))
                       (snd (predicted rnd grid_size ?ch mx my))"
  note pc = process_cell_cases[OF assms, of threshold grid_size img g mx my]
  have ref: "\<exists>d. refine img ?ch r c = Inr (Some d)"
    if "passes_filters img r c" "2 \<le> r" "2 \<le> c" for r c
    using refine_char[of img r c ?ch] that by (auto simp: passes_filters_def)
  show ?thesis
  proof (cases "prob ?ch < rnd threshold \<or> (trash ?ch > bright ?ch \<and> trash ?ch > dim ?ch)")
    case True
    then show ?thesis unfolding pc by auto
  next
    case guards: False
    show ?thesis
    proof (cases ?cl)
      case None
      with guards show ?thesis unfolding pc by auto
    next
      case (Some q)
      obtain px py where q: "q = (px, py)" by (cases q)
      from clamp_bounds[OF assms Some[unfolded q]]
      have b: "2 \<le> py_int py" "2 \<le> py_int px" by simp_all
      show ?thesis
      proof (cases "passes_filters img (py_int py) (py_int px)")
        case True
        then have ib: "in_bounds img (py_int py) (py_int px)" by (simp add: passes_filters_def)
        from ref[OF True b] obtain d where d: "refine img ?ch (py_int py) (py_int px) = Inr (Some d)"
          by blast
        have "process_cell rnd threshold grid_size img g mx my = Inr (Some d)"
          unfolding pc using guards Some q True ib d by simp
        with guards Some q True show ?thesis by auto
      next
        case False
        from guards have g1: "\<not> prob ?ch < rnd threshold"
          and g2: "\<not> (trash ?ch > bright ?ch \<and> trash ?ch > dim ?ch)" by blast+
        have val: "process_cell rnd threshold grid_size img g mx my =
                (if in_bounds img (py_int py) (py_int px) then Inr None else Inl IndexError)"
          unfolding pc using Some q False by (simp only: g1 g2 if_False option.case prod.case) simp
        have ex: "(\<exists>px' py'. ?cl = Some (px', py') \<and> P px' py') \<longleftrightarrow> P px py" for P
          unfolding Some q by simp
        show ?thesis
          unfolding val ex using g1 g2 False
          by (cases "in_bounds img (py_int py) (py_int px)") simp_all
      qed
    qed
  qed
qed

theorem detection_iff_rounded_threshold_and_filters_witness:
  "float_rounding (\<lambda>x. x) \<and>
   process_cell (\<lambda>x. x) (1 / 2) 4 star_image pair_grid 3 2
     = Inr (Some \<lparr>pos = (10, 11), brighter = True, fsign = positive\<rparr>) \<and>
   passes_filters star_image 10 12 \<and>
   process_cell (\<lambda>x. x) (1 / 2) 4 star_image pair_grid 1 1 = Inr None \<and>
   prob (gcell pair_grid 1 1) < 1 / 2"
proof -
  have a: "process_cell (\<lambda>x. x) (1 / 2) 4 star_image pair_grid 3 2
     = Inr (Some \<lparr>pos = (10, 11), brighter = True, fsign = positive\<rparr>)"
    by (simp add: pair_grid_def star_B)
  have cl: "clamp (\<lambda>x. x) (fst (predicted (\<lambda>x. x) 4 (gcell pair_grid 2 3) 3 2))
                  (snd (predicted (\<lambda>x. x) 4 (gcell pair_grid 2 3) 3 2)) = Some (49 / 4, 21 / 2)"
    by (simp add: pair_grid_def star_grid_sel predicted_def star_cell_def clamp_done py_int_def)
  have pi: "py_int (21 / 2) = 10" "py_int (49 / 4) = 12" by (simp_all add: py_int_def)
  note th = detection_iff_rounded_threshold_and_filters[OF float_rounding_id,
      of "1 / 2" 4 star_image pair_grid 3 2]
  from th a have "\<exists>px py. clamp (\<lambda>x. x) (fst (predicted (\<lambda>x. x) 4 (gcell pair_grid 2 3) 3 2))
                  (snd (predicted (\<lambda>x. x) 4 (gcell pair_grid 2 3) 3 2)) = Some (px, py) \<and>
                 passes_filters star_image (py_int py) (py_int px)"
    by blast
  then obtain px py where e: "Some (49 / 4, 21 / 2) = Some (px :: real, py :: real)"
    and pf: "passes_filters star_image (py_int py) (py_int px)"
    unfolding cl by blast
  from e have "px = 49 / 4" "py = 21 / 2" by simp_all
  with pf pi have p: "passes_filters star_image 10 12" by (simp only:)
  have pr: "prob (gcell pair_grid 1 1) < 1 / 2"
    by (simp add: pair_grid_def star_grid_def zero_cell_def)
  then have z: "process_cell (\<lambda>x. x) (1 / 2) 4 star_image pair_grid 1 1 = Inr None"
    using detection_iff_rounded_threshold_and_filters[OF float_rounding_id,
      of "1 / 2" 4 star_image pair_grid 1 1] by blast
  from a p z pr float_rounding_id show ?thesis by blast
qed

text \<open>
  C3, as the code has it. When a cell yields a detection, the clamp returned and both
  clamped integer coordinates lie in \<open>[2, 509]\<close>: the upper bound is the constant 509
  whatever the size of the image. The recorded position is a pixel of the image of largest
  absolute value in the 3x3 neighbourhood of the clamped point (cut at the border) and
  differs from the clamped point by at most 1 in each axis.
\<close>

theorem clamped_in_2_509_and_refined_within_1:
  assumes "float_rounding rnd"
    and "process_cell rnd threshold grid_size img g mx my = Inr (Some d)"
  shows "\<exists>px py. clamp rnd (fst (predicted rnd grid_size (gcell g my mx) mx my))
                        (snd (predicted rnd grid_size (gcell g my mx) mx my)) = Some (px, py) \<and>
           2 \<le> py_int px \<and> py_int px \<le> 509 \<and> 2 \<le> py_int py \<and> py_int py \<le> 509 \<and>
           \<bar>fst (pos d) - py_int py\<bar> \<le> 1 \<and> \<bar>snd (pos d) - py_int px\<bar> \<le> 1 \<and>
           in_bounds img (fst (pos d)) (snd (pos d)) \<and>
           \<bar>pixel img (fst (pos d)) (snd (pos d))\<bar>
              = Max (abs ` neighbourhood img (py_int py) (py_int px) 1)"
proof -
  let ?ch = "gcell g my mx"
  note pc = process_cell_cases[OF assms(1), of threshold grid_size img g mx my]
  from assms(2) obtain px py where
    cl: "clamp rnd (fst (predicted rnd grid_size ?ch mx my))
                   (snd (predicted rnd grid_size ?ch mx my)) = Some (px, py)"
    and ib: "in_bounds img (py_int py) (py_int px)"
    and rf: "refine img ?ch (py_int py) (py_int px) = Inr (Some d)"
    unfolding pc by (auto split: if_splits option.splits)
  from clamp_bounds[OF assms(1) cl]
  have b: "2 \<le> py_int px" "py_int px \<le> 509" "2 \<le> py_int py" "py_int py \<le> 509" by simp_all
  from refine_char[OF ib, of ?ch] b rf
  have "\<bar>fst (pos d) - py_int py\<bar> \<le> 1 \<and> \<bar>snd (pos d) - py_int px\<bar> \<le> 1 \<and>
        in_bounds img (fst (pos d)) (snd (pos d)) \<and>
        \<bar>pixel img (fst (pos d)) (snd (pos d))\<bar>
              = Max (abs ` neighbourhood img (py_int py) (py_int px) 1)"
    by auto
  with cl b show ?thesis by blast
qed

theorem clamped_in_2_509_and_refined_within_1_witness:
  "float_rounding (\<lambda>x. x) \<and>
   process_cell (\<lambda>x. x) (1 / 2) 4 star_image pair_grid 3 2
     = Inr (Some \<lparr>pos = (10, 11), brighter = True, fsign = positive\<rparr>) \<and>
   clamp (\<lambda>x. x) (fst (predicted (\<lambda>x. x) 4 (gcell pair_grid 2 3) 3 2))
                  (snd (predicted (\<lambda>x. x) 4 (gcell pair_grid 2 3) 3 2)) = Some (49 / 4, 21 / 2) \<and>
   \<bar>pixel star_image 10 11\<bar> = Max (abs ` neighbourhood star_image 10 12 1)"
proof -
  have a: "process_cell (\<lambda>x. x) (1 / 2) 4 star_image pair_grid 3 2
     = Inr (Some \<lparr>pos = (10, 11), brighter = True, fsign = positive\<rparr>)"
    by (simp add: pair_grid_def star_B)
  have cl: "clamp (\<lambda>x. x) (fst (predicted (\<lambda>x. x) 4 (gcell pair_grid 2 3) 3 2))
                  (snd (predicted (\<lambda>x. x) 4 (gcell pair_grid 2 3) 3 2)) = Some (49 / 4, 21 / 2)"
    by (simp add: pair_grid_def star_grid_sel predicted_def star_cell_def clamp_done py_int_def)
  have pi: "py_int (21 / 2) = 10" "py_int (49 / 4) = 12" by (simp_all add: py_int_def)
  from clamped_in_2_509_and_refined_within_1[OF float_rounding_id a]
  obtain px py where e: "Some (49 / 4, 21 / 2) = Some (px :: real, py :: real)"
    and mx: "\<bar>pixel star_image (fst (pos \<lparr>pos = (10, 11), brighter = True, fsign = positive\<rparr>))
                (snd (pos \<lparr>pos = (10, 11), brighter = True, fsign = positive\<rparr>))\<bar>
              = Max (abs ` neighbourhood star_image (py_int py) (py_int px) 1)"
    unfolding cl by blast
  from e have "px = 49 / 4" "py = 21 / 2" by simp_all
  with mx pi have "\<bar>pixel star_image 10 11\<bar> = Max (abs ` neighbourhood star_image 10 12 1)"
    by simp
  with a cl float_rounding_id show ?thesis by blast
qed

text \<open>
  C3, as the claim states it, fails on an image that is not 512 pixels wide: on a 16x16
  image a cell yields a detection with the clamped column 15, beyond \<open>16 - 3 = 13\<close>.
\<close>

theorem clamp_bound_not_image_size_counterexample:
  "process_cell (\<lambda>x. x) (1 / 2) 4 star_image edge_grid 3 2
     = Inr (Some \<lparr>pos = (10, 15), brighter = True, fsign = positive\<rparr>) \<and>
   clamp (\<lambda>x. x) (fst (predicted (\<lambda>x. x) 4 (gcell edge_grid 2 3) 3 2))
                  (snd (predicted (\<lambda>x. x) 4 (gcell edge_grid 2 3) 3 2)) = Some (31 / 2, 21 / 2) \<and>
   py_int (31 / 2) = 15 \<and>
   int (ncols star_image) - 3 = 13"
proof -
  have a: "process_cell (\<lambda>x. x) (1 / 2) 4 star_image edge_grid 3 2
     = Inr (Some \<lparr>pos = (10, 15), brighter = True, fsign = positive\<rparr>)"
    by (simp add: edge_grid_def star_edge)
  have cl: "clamp (\<lambda>x. x) (fst (predicted (\<lambda>x. x) 4 (gcell edge_grid 2 3) 3 2))
                  (snd (predicted (\<lambda>x. x) 4 (gcell edge_grid 2 3) 3 2)) = Some (31 / 2, 21 / 2)"
    by (simp add: edge_grid_def star_grid_sel predicted_def star_cell_def clamp_done py_int_def)
  have "py_int (31 / 2) = 15" by (simp add: py_int_def)
  moreover have "int (ncols star_image) - 3 = 13" by (simp add: star_image_def)
  ultimately show ?thesis using a cl by blast
qed

subsection \<open>Termination of the clamp\<close>

lemma clamp_high_stuck:
  assumes stuck: "rnd (p0 - 2) = p0" and big: "509 < py_int p0"
  shows "clamp_high rnd p0 = None"
proof (rule ccontr)
  assume "clamp_high rnd p0 \<noteq> None"
  then obtain q where q: "clamp_high rnd p0 = Some q" by blast
  have "\<not> (rnd = rnd \<and> p0 = p0)"
  proof (rule clamp_high.raw_induct[where P = "\<lambda>r p q. \<not> (r = rnd \<and> p = p0)", OF _ q])
    fix h :: "(real \<Rightarrow> real) \<Rightarrow> real \<Rightarrow> real option" and r p q'
    assume IH: "\<And>r p q. h r p = Some q \<Longrightarrow> \<not> (r = rnd \<and> p = p0)"
      and step: "(if 509 < py_int p then h r (r (p - 2)) else Some p) = Some q'"
    show "\<not> (r = rnd \<and> p = p0)"
    proof
      assume "r = rnd \<and> p = p0"
      with step big stuck have "h rnd p0 = Some q'" by simp
      from IH[OF this] show False by simp
    qed
  qed
  then show False by simp
qed

lemma floor_log2_big: "\<lfloor>log 2 \<bar>2 ^ 60 - 2 :: real\<bar>\<rfloor> = 59"
proof -
  have "(2 :: real) powr 59 \<le> 2 ^ 60 - 2" by (simp add: powr_numeral)
  then have lo: "59 \<le> log 2 (2 ^ 60 - 2 :: real)"
    by (subst le_log_iff) simp_all
  have "(2 ^ 60 - 2 :: real) < 2 powr 60" by (simp add: powr_numeral)
  then have hi: "log 2 (2 ^ 60 - 2 :: real) < 60"
    by (subst log_less_iff) simp_all
  have "\<lfloor>log 2 (2 ^ 60 - 2 :: real)\<rfloor> = 59"
    using lo hi by (simp add: floor_eq_iff)
  then show ?thesis by simp
qed

lemma binary_round_53_absorbs: "binary_round 53 (2 ^ 60 - 2) = 2 ^ 60"
proof -
  have u: "ulp 53 (2 ^ 60 - 2) = 128"
    unfolding ulp_def floor_log2_big by (simp add: powr_numeral)
  have fl: "\<lfloor>(2 ^ 60 - 2 :: real) / 128\<rfloor> = 2 ^ 53 - 1" by simp
  have "round_half_even ((2 ^ 60 - 2) / 128) = 2 ^ 53"
    unfolding round_half_even_def Let_def fl by simp
  then show ?thesis unfolding binary_round_def u by simp
qed

lemma binary_round_24_absorbs: "binary_round 24 (2 ^ 60 - 2) = 2 ^ 60"
proof -
  have u: "ulp 24 (2 ^ 60 - 2) = 2 ^ 36"
    unfolding ulp_def floor_log2_big by (simp add: powr_numeral)
  have fl: "\<lfloor>(2 ^ 60 - 2 :: real) / 2 ^ 36\<rfloor> = 2 ^ 24 - 1" by simp
  have "round_half_even ((2 ^ 60 - 2) / 2 ^ 36) = 2 ^ 24"
    unfolding round_half_even_def Let_def fl by simp
  then show ?thesis unfolding binary_round_def u by simp
qed

lemma clamp_low_total:
  assumes err: "\<forall>p. \<bar>p\<bar> \<le> B \<longrightarrow> \<bar>rnd p - p\<bar> \<le> 1 / 2" and B: "7 \<le> B"
  shows "- (B - 2) \<le> p \<Longrightarrow> p \<le> B - 2 \<Longrightarrow>
           \<exists>q. clamp_low rnd p = Some q \<and> - (B - 2) \<le> q \<and> q \<le> B - 2"
proof (induction "nat \<lceil>2 - p\<rceil>" arbitrary: p rule: less_induct)
  case less
  show ?case
  proof (cases "p < 2")
    case False
    then have "clamp_low rnd p = Some p"
      by (subst clamp_low.simps) (simp add: py_int_lt_2)
    with less.prems show ?thesis by simp
  next
    case True
    let ?p' = "rnd (p + 2)"
    from True less.prems B have "\<bar>p + 2\<bar> \<le> B" by simp
    with err have e: "\<bar>?p' - (p + 2)\<bar> \<le> 1 / 2" by blast
    then have lo: "p + 3 / 2 \<le> ?p'" and hi: "?p' \<le> p + 5 / 2" by linarith+
    have "\<lceil>2 - ?p'\<rceil> \<le> \<lceil>2 - p - 3 / 2\<rceil>" using lo by (intro ceiling_mono) simp
    also have "\<dots> \<le> \<lceil>2 - p\<rceil> - 1" by linarith
    finally have "\<lceil>2 - ?p'\<rceil> < \<lceil>2 - p\<rceil>" by simp
    moreover have "0 < \<lceil>2 - p\<rceil>" using True by simp
    ultimately have m: "nat \<lceil>2 - ?p'\<rceil> < nat \<lceil>2 - p\<rceil>" by simp
    have b1: "- (B - 2) \<le> ?p'" using lo less.prems by simp
    have b2: "?p' \<le> B - 2" using hi True B by simp
    from less.hyps[OF m b1 b2] obtain q where
      "clamp_low rnd ?p' = Some q" "- (B - 2) \<le> q" "q \<le> B - 2" by blast
    moreover have "clamp_low rnd p = clamp_low rnd ?p'"
      using True by (subst clamp_low.simps) (simp add: py_int_lt_2)
    ultimately show ?thesis by simp
  qed
qed

lemma clamp_high_total:
  assumes err: "\<forall>p. \<bar>p\<bar> \<le> B \<longrightarrow> \<bar>rnd p - p\<bar> \<le> 1 / 2" and B: "7 \<le> B"
  shows "- (B - 2) \<le> p \<Longrightarrow> p \<le> B - 2 \<Longrightarrow> \<exists>q. clamp_high rnd p = Some q"
proof (induction "nat \<lfloor>p\<rfloor>" arbitrary: p rule: less_induct)
  case less
  show ?case
  proof (cases "510 \<le> p")
    case False
    then have "clamp_high rnd p = Some p"
      by (subst clamp_high.simps) (simp add: py_int_gt_509)
    then show ?thesis by simp
  next
    case True
    let ?p' = "rnd (p - 2)"
    from True less.prems B have "\<bar>p - 2\<bar> \<le> B" by simp
    with err have e: "\<bar>?p' - (p - 2)\<bar> \<le> 1 / 2" by blast
    then have hi: "?p' \<le> p - 3 / 2" and lo: "p - 5 / 2 \<le> ?p'" by linarith+
    have "\<lfloor>?p'\<rfloor> \<le> \<lfloor>p - 3 / 2\<rfloor>" using hi by (rule floor_mono)
    also have "\<dots> \<le> \<lfloor>p\<rfloor> - 1" by linarith
    finally have "\<lfloor>?p'\<rfloor> < \<lfloor>p\<rfloor>" by simp
    moreover have "0 < \<lfloor>p\<rfloor>" using True by simp
    ultimately have m: "nat \<lfloor>?p'\<rfloor> < nat \<lfloor>p\<rfloor>" by simp
    have b1: "- (B - 2) \<le> ?p'" using lo True B by simp
    have b2: "?p' \<le> B - 2" using hi less.prems by simp
    from less.hyps[OF m b1 b2] obtain q where "clamp_high rnd ?p' = Some q" by blast
    moreover have "clamp_high rnd p = clamp_high rnd ?p'"
      using True by (subst clamp_high.simps) (simp add: py_int_gt_509)
    ultimately show ?thesis by simp
  qed
qed

lemma round_half_even_error: "\<bar>real_of_int (round_half_even y) - y\<bar> \<le> 1 / 2"
  unfolding round_half_even_def Let_def by (auto simp: abs_le_iff)

lemma ulp_pos: "0 < ulp prec x"
  by (simp add: ulp_def)

lemma ulp_le_1:
  assumes "x \<noteq> 0" "\<bar>x\<bar> < 2 ^ prec"
  shows "ulp prec x \<le> 1"
proof -
  from assms have "log 2 \<bar>x\<bar> < real prec"
    by (subst log_less_iff) (simp_all add: powr_realpow)
  then have "\<lfloor>log 2 \<bar>x\<bar>\<rfloor> < int prec" by (simp add: floor_less_iff)
  then have "real_of_int \<lfloor>log 2 \<bar>x\<bar>\<rfloor> - real prec + 1 \<le> 0" by linarith
  then have "2 powr (real_of_int \<lfloor>log 2 \<bar>x\<bar>\<rfloor> - real prec + 1) \<le> 2 powr 0"
    by (intro powr_mono) simp_all
  then show ?thesis by (simp add: ulp_def)
qed

lemma binary_round_error:
  assumes "\<bar>x\<bar> < 2 ^ prec"
  shows "\<bar>binary_round prec x - x\<bar> \<le> 1 / 2"
proof (cases "x = 0")
  case True
  then show ?thesis by (simp add: binary_round_def)
next
  case False
  let ?u = "ulp prec x"
  have u: "0 < ?u" by (rule ulp_pos)
  have "binary_round prec x - x = ?u * (real_of_int (round_half_even (x / ?u)) - x / ?u)"
    using False u by (simp add: binary_round_def algebra_simps)
  then have "\<bar>binary_round prec x - x\<bar> = ?u * \<bar>real_of_int (round_half_even (x / ?u)) - x / ?u\<bar>"
    using u by (simp add: abs_mult)
  also have "\<dots> \<le> ?u * (1 / 2)"
    using u round_half_even_error[of "x / ?u"] by (intro mult_left_mono) simp_all
  also have "\<dots> \<le> 1 * (1 / 2)"
    using ulp_le_1[OF False assms] by (intro mult_right_mono) simp_all
  finally show ?thesis by simp
qed

text \<open>
  C9, as the code has it. Let the float format round every value of magnitude at most
  \<open>B\<close> (at least 7) with an error of at most 1/2; this holds for every \<open>B\<close> in exact
  arithmetic, for \<open>B = 2 ^ 23\<close> in float32 and for \<open>B = 2 ^ 52\<close> in float64. Then the four
  clamp loops return for every predicted pair of magnitude at most \<open>B - 2\<close>.
\<close>

theorem clamp_terminates_when_steps_accurate:
  assumes "\<forall>p. \<bar>p\<bar> \<le> B \<longrightarrow> \<bar>rnd p - p\<bar> \<le> 1 / 2"
    and "7 \<le> B" and "\<bar>px\<bar> \<le> B - 2" and "\<bar>py\<bar> \<le> B - 2"
  shows "\<exists>qx qy. clamp rnd px py = Some (qx, qy)"
proof -
  from assms(3,4) have px: "- (B - 2) \<le> px" "px \<le> B - 2" and py: "- (B - 2) \<le> py" "py \<le> B - 2"
    by (simp_all add: abs_le_iff)
  from clamp_low_total[OF assms(1,2) py] obtain py1 where
    a: "clamp_low rnd py = Some py1" and a': "- (B - 2) \<le> py1" "py1 \<le> B - 2" by blast
  from clamp_low_total[OF assms(1,2) px] obtain px1 where
    b: "clamp_low rnd px = Some px1" and b': "- (B - 2) \<le> px1" "px1 \<le> B - 2" by blast
  from clamp_high_total[OF assms(1,2) a'] obtain py2 where c: "clamp_high rnd py1 = Some py2"
    by blast
  from clamp_high_total[OF assms(1,2) b'] obtain px2 where d: "clamp_high rnd px1 = Some px2"
    by blast
  from a b c d show ?thesis by (simp add: clamp_def)
qed

theorem clamp_terminates_when_steps_accurate_witness:
  "(\<exists>qx qy. clamp (binary_round 53) (- (15 / 2)) (2801 / 4) = Some (qx, qy)) \<and>
   (\<exists>qx qy. clamp (binary_round 24) (- (15 / 2)) (2801 / 4) = Some (qx, qy)) \<and>
   (\<exists>qx qy. clamp (\<lambda>x. x) (2 ^ 60) (- (2 ^ 60)) = Some (qx, qy))"
proof -
  have e53: "\<forall>p. \<bar>p\<bar> \<le> 2 ^ 52 \<longrightarrow> \<bar>binary_round 53 p - p\<bar> \<le> 1 / 2"
    by (intro allI impI binary_round_error) simp
  have e24: "\<forall>p. \<bar>p\<bar> \<le> 2 ^ 23 \<longrightarrow> \<bar>binary_round 24 p - p\<bar> \<le> 1 / 2"
    by (intro allI impI binary_round_error) simp
  have e0: "\<forall>p :: real. \<bar>p\<bar> \<le> 2 ^ 61 \<longrightarrow> \<bar>p - p\<bar> \<le> 1 / 2" by simp
  have a: "\<exists>qx qy. clamp (binary_round 53) (- (15 / 2)) (2801 / 4) = Some (qx, qy)"
    by (rule clamp_terminates_when_steps_accurate[OF e53]) simp_all
  have b: "\<exists>qx qy. clamp (binary_round 24) (- (15 / 2)) (2801 / 4) = Some (qx, qy)"
    by (rule clamp_terminates_when_steps_accurate[OF e24]) simp_all
  have c: "\<exists>qx qy. clamp (\<lambda>x. x) (2 ^ 60) (- (2 ^ 60)) = Some (qx, qy)"
    by (rule clamp_terminates_when_steps_accurate[OF e0]) simp_all
  from a b c show ?thesis by blast
qed

text \<open>
  C9, as the claim states it, fails for a finite float so large that subtracting 2 is
  absorbed by the rounding: \<open>2 ^ 60 - 2\<close> rounds back to \<open>2 ^ 60\<close> in float64 and in
  float32, the loop \<^verbatim>\<open>while int(px) > 509: px -= 2\<close> never changes \<open>px\<close>, and the clamp
  of the pair \<open>(2 ^ 60, 10)\<close> does not return.
\<close>

theorem clamp_hangs_on_huge_float_counterexample:
  "binary_round 53 (2 ^ 60 - 2) = 2 ^ 60 \<and>
   binary_round 24 (2 ^ 60 - 2) = 2 ^ 60 \<and>
   clamp_high (binary_round 53) (2 ^ 60) = None \<and>
   clamp_high (binary_round 24) (2 ^ 60) = None \<and>
   clamp (binary_round 53) (2 ^ 60) 10 = None \<and>
   clamp (binary_round 24) (2 ^ 60) 10 = None"
proof -
  have big: "509 < py_int (2 ^ 60)" by (simp add: py_int_gt_509)
  have h53: "clamp_high (binary_round 53) (2 ^ 60) = None"
    by (rule clamp_high_stuck[of "binary_round 53" "2 ^ 60", OF binary_round_53_absorbs big])
  have h24: "clamp_high (binary_round 24) (2 ^ 60) = None"
    by (rule clamp_high_stuck[of "binary_round 24" "2 ^ 60", OF binary_round_24_absorbs big])
  have lo: "clamp_low rnd (2 ^ 60) = Some (2 ^ 60)" "clamp_low rnd 10 = Some 10"
    "clamp_high rnd 10 = Some 10" for rnd
    by (simp_all add: clamp_low_done clamp_high_done py_int_def)
  have "clamp (binary_round 53) (2 ^ 60) 10 = None" "clamp (binary_round 24) (2 ^ 60) 10 = None"
    unfolding clamp_def lo
    by (simp_all only: Option.bind.bind_lunit h53 h24 Option.bind.bind_lzero lo)
  with h53 h24 binary_round_53_absorbs binary_round_24_absorbs show ?thesis by blast
qed

subsection \<open>close_detect: the merge pass computes the transitive closure\<close>

lemma set_append_new: "set (append_new cj ci) = set cj \<union> set ci"
proof -
  have "set (fold (\<lambda>x acc. if x \<in> set acc then acc else acc @ [x]) ci cj) = set cj \<union> set ci"
    by (induction ci arbitrary: cj) auto
  then show ?thesis by (simp add: append_new_def)
qed

lemma distinct_append_new: "distinct cj \<Longrightarrow> distinct (append_new cj ci)"
proof -
  have "distinct cj \<Longrightarrow> distinct (fold (\<lambda>x acc. if x \<in> set acc then acc else acc @ [x]) ci cj)"
    by (induction ci arbitrary: cj) auto
  then show "distinct cj \<Longrightarrow> distinct (append_new cj ci)" by (simp add: append_new_def)
qed

lemma count_append_new:
  "count_list (append_new cj ci) q =
     (if q \<in> set cj then count_list cj q else if q \<in> set ci then 1 else 0)"
proof -
  have "count_list (fold (\<lambda>x acc. if x \<in> set acc then acc else acc @ [x]) ci cj) q =
     (if q \<in> set cj then count_list cj q else if q \<in> set ci then 1 else 0)"
  proof (induction ci arbitrary: cj)
    case Nil
    then show ?case by (simp add: count_list_0_iff)
  next
    case (Cons x ci)
    show ?case
    proof (cases "x \<in> set cj")
      case True
      with Cons[of cj] show ?thesis by auto
    next
      case False
      with Cons[of "cj @ [x]"] show ?thesis by (auto simp: count_list_0_iff)
    qed
  qed
  then show ?thesis by (simp add: append_new_def)
qed

text \<open>One row of the merge pass: every list but the pivot's own is updated from the old lists.\<close>

lemma merge_row_prefix:
  assumes "i < length objs" "m \<le> length objs"
  shows "length (fold (merge_step src i) [0 ..< m] objs) = length objs \<and>
         (\<forall>j < length objs. fold (merge_step src i) [0 ..< m] objs ! j =
            (if j < m \<and> i \<noteq> j \<and> src ! i \<in> set (objs ! j)
             then append_new (objs ! j) (objs ! i) else objs ! j))"
  using assms(2)
proof (induction m)
  case 0
  then show ?case by simp
next
  case (Suc m)
  let ?F = "fold (merge_step src i) [0 ..< m] objs"
  from Suc have len: "length ?F = length objs"
    and nth: "\<And>j. j < length objs \<Longrightarrow> ?F ! j =
            (if j < m \<and> i \<noteq> j \<and> src ! i \<in> set (objs ! j)
             then append_new (objs ! j) (objs ! i) else objs ! j)"
    by simp_all
  from Suc.prems have m: "m < length objs" by simp
  have Fm: "?F ! m = objs ! m" using nth[OF m] by simp
  have Fi: "?F ! i = objs ! i" using nth[OF assms(1)] by simp
  have step: "fold (merge_step src i) [0 ..< Suc m] objs = merge_step src i m ?F" by simp
  show ?case
  proof (cases "i \<noteq> m \<and> src ! i \<in> set (objs ! m)")
    case False
    then have "merge_step src i m ?F = ?F" by (auto simp: merge_step_def Fm)
    with len nth False show ?thesis unfolding step by (auto simp: less_Suc_eq)
  next
    case True
    then have "merge_step src i m ?F = ?F[m := append_new (objs ! m) (objs ! i)]"
      by (simp add: merge_step_def Fm Fi)
    with len nth True m show ?thesis unfolding step
      by (auto simp: less_Suc_eq nth_list_update)
  qed
qed

lemma merge_row_nth:
  assumes "i < length objs"
  shows "length (merge_row src i objs) = length objs"
    and "j < length objs \<Longrightarrow> merge_row src i objs ! j =
            (if i \<noteq> j \<and> src ! i \<in> set (objs ! j)
             then append_new (objs ! j) (objs ! i) else objs ! j)"
  using merge_row_prefix[OF assms, of "length objs" src] by (simp_all add: merge_row_def)

text \<open>A property of the lists that appending new members keeps is kept by the merge pass.\<close>

lemma merge_pass_rows:
  assumes len: "length objs = length src" and P: "\<forall>j < length src. P (objs ! j)"
    and app: "\<And>a b. P a \<Longrightarrow> P b \<Longrightarrow> P (append_new a b)"
  shows "length (merge_pass src objs) = length src \<and>
         (\<forall>j < length src. P (merge_pass src objs ! j))"
proof -
  have "m \<le> length src \<Longrightarrow>
          length (fold (merge_row src) [0 ..< m] objs) = length src \<and>
          (\<forall>j < length src. P (fold (merge_row src) [0 ..< m] objs ! j))" for m
  proof (induction m)
    case 0
    with len P show ?case by simp
  next
    case (Suc m)
    let ?o = "fold (merge_row src) [0 ..< m] objs"
    from Suc have l: "length ?o = length src" and s: "\<forall>j < length src. P (?o ! j)"
      and mn: "m < length src" by simp_all
    from mn l have m': "m < length ?o" by simp
    have "length (merge_row src m ?o) = length src" using merge_row_nth(1)[OF m'] l by simp
    moreover have "P (merge_row src m ?o ! j)" if "j < length src" for j
    proof -
      from that l have "j < length ?o" by simp
      from merge_row_nth(2)[OF m' this] s that mn app show ?thesis by simp
    qed
    ultimately show ?case by simp
  qed
  from this[of "length src"] show ?thesis by (simp add: merge_pass_def)
qed

lemma is_close_sym: "is_close p q \<Longrightarrow> is_close q p"
  by (simp add: is_close_def abs_minus_commute)

lemma is_close_refl: "is_close p p"
  by (simp add: is_close_def)

lemma sym_close_rel: "sym (close_rel src)"
  unfolding sym_def close_rel_def using is_close_sym by blast

lemma close_rel_mem: "(p, q) \<in> close_rel src \<Longrightarrow> p \<in> set src \<and> q \<in> set src"
  unfolding close_rel_def using nth_mem by blast


lemma two_places_count:
  "i < length src \<Longrightarrow> j < length src \<Longrightarrow> i \<noteq> j \<Longrightarrow> src ! i = c \<Longrightarrow> src ! j = c \<Longrightarrow>
     2 \<le> count_list src c"
proof (induction src arbitrary: i j)
  case Nil
  then show ?case by simp
next
  case (Cons x xs)
  show ?case
  proof (cases i)
    case 0
    with Cons.prems obtain j' where j': "j = Suc j'" by (cases j) auto
    with Cons.prems have "j' < length xs" "xs ! j' = c" by simp_all
    then have "c \<in> set xs" using nth_mem by blast
    then have "count_list xs c \<noteq> 0" by (simp add: count_list_0_iff)
    then have "1 \<le> count_list xs c" by linarith
    with 0 Cons.prems show ?thesis by simp
  next
    case (Suc i')
    show ?thesis
    proof (cases j)
      case 0
      with Suc Cons.prems have "i' < length xs" "xs ! i' = c" by simp_all
      then have "c \<in> set xs" using nth_mem by blast
      then have "count_list xs c \<noteq> 0" by (simp add: count_list_0_iff)
    then have "1 \<le> count_list xs c" by linarith
      with 0 Cons.prems show ?thesis by simp
    next
      case (Suc j')
      with \<open>i = Suc i'\<close> Cons.prems have "2 \<le> count_list xs c"
        by (intro Cons.IH[of i' j']) simp_all
      then show ?thesis by simp
    qed
  qed
qed

lemma count_two_places:
  "2 \<le> count_list src c \<Longrightarrow>
     \<exists>i j. i < length src \<and> j < length src \<and> i \<noteq> j \<and> src ! i = c \<and> src ! j = c"
proof (induction src)
  case Nil
  then show ?case by simp
next
  case (Cons x xs)
  show ?case
  proof (cases "x = c")
    case True
    with Cons.prems have "count_list xs c \<noteq> 0" by simp
    then have "c \<in> set xs" by (simp add: count_list_0_iff)
    then obtain j where j: "j < length xs" "xs ! j = c" by (auto simp: in_set_conv_nth)
    with True show ?thesis by (intro exI[of _ 0] exI[of _ "Suc j"]) simp
  next
    case False
    with Cons.prems have "2 \<le> count_list xs c" by simp
    from Cons.IH[OF this] obtain i j where
      "i < length xs" "j < length xs" "i \<noteq> j" "xs ! i = c" "xs ! j = c" by blast
    then show ?thesis by (intro exI[of _ "Suc i"] exI[of _ "Suc j"]) simp
  qed
qed

lemma close_rel_self: "(c, c) \<in> close_rel src \<longleftrightarrow> 2 \<le> count_list src c"
proof
  assume "(c, c) \<in> close_rel src"
  then have "\<exists>i j. i < length src \<and> j < length src \<and> i \<noteq> j \<and> src ! i = c \<and> src ! j = c"
    by (simp add: close_rel_def) blast
  then obtain i j where "i < length src" "j < length src" "i \<noteq> j" "src ! i = c" "src ! j = c"
    by blast
  then show "2 \<le> count_list src c" by (rule two_places_count)
next
  assume "2 \<le> count_list src c"
  from count_two_places[OF this] obtain i j where
    ij: "i < length src" "j < length src" "i \<noteq> j" "src ! i = c" "src ! j = c" by blast
  have "is_close c c" by (rule is_close_refl)
  with ij have "\<exists>i j. i < length src \<and> j < length src \<and> i \<noteq> j \<and> src ! i = c \<and> src ! j = c \<and>
                  is_close c c" by blast
  then show "(c, c) \<in> close_rel src" by (simp add: close_rel_def)
qed

lemma neighbours_set:
  assumes "i < length src"
  shows "set (neighbours src i) = close_rel src `` {src ! i}"
proof -
  have "set (neighbours src i) = {src ! j | j. j < length src \<and> i \<noteq> j \<and> is_close (src ! i) (src ! j)}"
    by (auto simp: neighbours_def)
  also have "\<dots> = close_rel src `` {src ! i}"
  proof (intro equalityI subsetI)
    fix q assume "q \<in> {src ! j | j. j < length src \<and> i \<noteq> j \<and> is_close (src ! i) (src ! j)}"
    then obtain j where "q = src ! j" "j < length src" "i \<noteq> j" "is_close (src ! i) (src ! j)"
      by blast
    with assms have "(src ! i, q) \<in> close_rel src" unfolding close_rel_def by blast
    then show "q \<in> close_rel src `` {src ! i}" by blast
  next
    fix q assume "q \<in> close_rel src `` {src ! i}"
    then obtain a b where ab: "a < length src" "b < length src" "a \<noteq> b"
      "src ! a = src ! i" "src ! b = q" "is_close (src ! i) q"
      unfolding close_rel_def by blast
    show "q \<in> {src ! j | j. j < length src \<and> i \<noteq> j \<and> is_close (src ! i) (src ! j)}"
    proof (cases "b = i")
      case False
      with ab show ?thesis by blast
    next
      case True
      with ab have "a \<noteq> i" "src ! a = q" "is_close (src ! i) (src ! a)" by simp_all
      with ab(1) show ?thesis by (intro CollectI exI[of _ a]) simp
    qed
  qed
  finally show ?thesis .
qed

lemma neighbours_distinct:
  assumes "distinct src"
  shows "distinct (neighbours src i)"
proof -
  have "inj_on ((!) src) (set (filter (\<lambda>j. i \<noteq> j \<and> is_close (src ! i) (src ! j)) [0 ..< length src]))"
    using assms by (auto simp: inj_on_def nth_eq_iff_index_eq)
  then show ?thesis by (simp add: neighbours_def distinct_map)
qed

lemma merge_inv_init: "merge_inv src 0 (init_close_objs src)"
  by (auto simp: merge_inv_def init_close_objs_def neighbours_set)

lemma merge_inv_step:
  assumes inv: "merge_inv src k objs" and k: "k < length src"
  shows "merge_inv src (Suc k) (merge_row src k objs)"
proof -
  let ?n = "length src"
  let ?new = "merge_row src k objs"
  let ?R = "close_rel src"
  from inv have len: "length objs = ?n" by (simp add: merge_inv_def)
  from inv have base: "\<And>j. j < ?n \<Longrightarrow> ?R `` {src ! j} \<subseteq> set (objs ! j)"
    and sound: "\<And>j. j < ?n \<Longrightarrow> set (objs ! j) \<subseteq> ?R\<^sup>+ `` {src ! j}"
    and closed: "\<And>i j. i < k \<Longrightarrow> j < ?n \<Longrightarrow> src ! i \<in> set (objs ! j)
                    \<Longrightarrow> set (objs ! i) \<subseteq> set (objs ! j)"
    unfolding merge_inv_def by blast+
  from k len have kl: "k < length objs" by simp
  have len': "length ?new = ?n" using merge_row_nth(1)[OF kl] len by simp
  have nth': "?new ! j = (if k \<noteq> j \<and> src ! k \<in> set (objs ! j)
             then append_new (objs ! j) (objs ! k) else objs ! j)" if "j < ?n" for j
    using merge_row_nth(2)[OF kl, of j src] that len by simp
  have N: "set (?new ! j) = set (objs ! j) \<union>
             (if k \<noteq> j \<and> src ! k \<in> set (objs ! j) then set (objs ! k) else {})"
    if "j < ?n" for j
    by (simp add: nth'[OF that] set_append_new)
  have Nk: "set (?new ! k) = set (objs ! k)" using N[OF k] by simp
  have b': "?R `` {src ! j} \<subseteq> set (?new ! j)" if "j < ?n" for j
    using base[OF that] N[OF that] by auto
  have s': "set (?new ! j) \<subseteq> ?R\<^sup>+ `` {src ! j}" if j: "j < ?n" for j
  proof (cases "k \<noteq> j \<and> src ! k \<in> set (objs ! j)")
    case False
    then show ?thesis using sound[OF j] N[OF j] by auto
  next
    case True
    then have "(src ! j, src ! k) \<in> ?R\<^sup>+" using sound[OF j] by auto
    moreover have "set (objs ! k) \<subseteq> ?R\<^sup>+ `` {src ! k}" by (rule sound[OF k])
    ultimately have "set (objs ! k) \<subseteq> ?R\<^sup>+ `` {src ! j}"
      by (auto intro: trancl_trans)
    with True sound[OF j] N[OF j] show ?thesis by auto
  qed
  have c': "set (?new ! i) \<subseteq> set (?new ! j)"
    if i: "i < Suc k" and j: "j < ?n" and mem: "src ! i \<in> set (?new ! j)" for i j
  proof (cases "i = k")
    case True
    show ?thesis
    proof (cases "j = k")
      case True
      with \<open>i = k\<close> show ?thesis by simp
    next
      case False
      with mem \<open>i = k\<close> N[OF j] have "src ! k \<in> set (objs ! j)"
        by (auto split: if_splits)
      with False N[OF j] have "set (objs ! k) \<subseteq> set (?new ! j)" by auto
      with \<open>i = k\<close> Nk show ?thesis by simp
    qed
  next
    case False
    with i have ik: "i < k" by simp
    then have il: "i < ?n" using k by simp
    have Ni: "set (?new ! i) = set (objs ! i) \<union>
                (if src ! k \<in> set (objs ! i) then set (objs ! k) else {})"
      using N[OF il] ik by simp
    have Oj: "set (objs ! j) \<subseteq> set (?new ! j)" using N[OF j] by auto
    show ?thesis
    proof (cases "src ! i \<in> set (objs ! j)")
      case True
      from closed[OF ik j True] have 1: "set (objs ! i) \<subseteq> set (objs ! j)" .
      have 2: "set (objs ! k) \<subseteq> set (?new ! j)" if "src ! k \<in> set (objs ! i)"
      proof -
        from that 1 have skj: "src ! k \<in> set (objs ! j)" by auto
        show ?thesis
        proof (cases "j = k")
          case True
          then show ?thesis using Nk by simp
        next
          case False
          with skj N[OF j] show ?thesis by auto
        qed
      qed
      from 1 2 Oj show ?thesis unfolding Ni by auto
    next
      case notin: False
      with mem N[OF j] have jk: "k \<noteq> j" and skj: "src ! k \<in> set (objs ! j)"
        and sik: "src ! i \<in> set (objs ! k)"
        by (auto split: if_splits)
      from jk skj N[OF j] have Nj: "set (?new ! j) = set (objs ! j) \<union> set (objs ! k)" by simp
      from closed[OF ik k sik] have "set (objs ! i) \<subseteq> set (objs ! k)" .
      then show ?thesis unfolding Ni Nj by auto
    qed
  qed
  show ?thesis
    unfolding merge_inv_def using len' b' s' c' by blast
qed

lemma merge_inv_fold:
  assumes "merge_inv src 0 objs" "k \<le> length src"
  shows "merge_inv src k (fold (merge_row src) [0 ..< k] objs)"
  using assms(2)
proof (induction k)
  case 0
  with assms(1) show ?case by simp
next
  case (Suc k)
  then have "merge_inv src k (fold (merge_row src) [0 ..< k] objs)" and "k < length src"
    by simp_all
  from merge_inv_step[OF this] show ?case by simp
qed

lemma merge_pass_inv: "merge_inv src (length src) (merge_pass src (init_close_objs src))"
  unfolding merge_pass_def by (rule merge_inv_fold[OF merge_inv_init]) simp

text \<open>After the pass, every list holds exactly the positions connected to its own.\<close>

lemma merge_pass_closure:
  assumes j: "j < length src"
  shows "set (merge_pass src (init_close_objs src) ! j) = (close_rel src)\<^sup>+ `` {src ! j}"
proof -
  let ?objs = "merge_pass src (init_close_objs src)"
  let ?R = "close_rel src"
  note inv = merge_pass_inv[of src]
  from inv have base: "\<And>j. j < length src \<Longrightarrow> ?R `` {src ! j} \<subseteq> set (?objs ! j)"
    and sound: "\<And>j. j < length src \<Longrightarrow> set (?objs ! j) \<subseteq> ?R\<^sup>+ `` {src ! j}"
    and closed: "\<And>i j. i < length src \<Longrightarrow> j < length src \<Longrightarrow> src ! i \<in> set (?objs ! j)
                    \<Longrightarrow> set (?objs ! i) \<subseteq> set (?objs ! j)"
    unfolding merge_inv_def by blast+
  have "x \<in> set (?objs ! j)" if "(src ! j, x) \<in> ?R\<^sup>+" for x
    using that
  proof (induction rule: trancl_induct)
    case (base y)
    then show ?case using \<open>\<And>j. j < length src \<Longrightarrow> ?R `` {src ! j} \<subseteq> set (?objs ! j)\<close>[OF j]
      by auto
  next
    case (step y z)
    from step(2) have "y \<in> set src" by (auto simp: close_rel_def)
    then obtain i where i: "i < length src" "src ! i = y" by (auto simp: in_set_conv_nth)
    from step(2) i have "z \<in> ?R `` {src ! i}" by auto
    with \<open>\<And>j. j < length src \<Longrightarrow> ?R `` {src ! j} \<subseteq> set (?objs ! j)\<close>[OF i(1)]
    have "z \<in> set (?objs ! i)" by auto
    moreover from step(3) i have "src ! i \<in> set (?objs ! j)" by simp
    from closed[OF i(1) j this] have "set (?objs ! i) \<subseteq> set (?objs ! j)" .
    ultimately show ?case by auto
  qed
  with sound[OF j] show "set (?objs ! j) = ?R\<^sup>+ `` {src ! j}" by auto
qed

lemma merge_pass_length: "length (merge_pass src (init_close_objs src)) = length src"
  using merge_pass_inv[of src] by (simp add: merge_inv_def)

text \<open>No list holds a position more often than the frame does.\<close>

lemma count_map_filter: "count_list (map f (filter Q xs)) q \<le> count_list (map f xs) q"
  by (induction xs) auto

lemma merge_pass_count:
  assumes j: "j < length src"
  shows "count_list (merge_pass src (init_close_objs src) ! j) q \<le> count_list src q"
proof -
  let ?P = "\<lambda>xs. \<forall>q. count_list xs q \<le> count_list src q"
  have l0: "length (init_close_objs src) = length src" by (simp add: init_close_objs_def)
  have "count_list (neighbours src i) q \<le> count_list src q" for i q
    using count_map_filter[of "(!) src" _ "[0 ..< length src]" q]
    by (simp add: neighbours_def map_nth)
  then have p0: "\<forall>j < length src. ?P (init_close_objs src ! j)"
    by (simp add: init_close_objs_def)
  have app: "?P (append_new a b)" if a: "?P a" and b: "?P b" for a b
  proof
    fix q
    show "count_list (append_new a b) q \<le> count_list src q"
    proof (cases "q \<in> set a")
      case True
      from a have "count_list a q \<le> count_list src q" by blast
      with True show ?thesis by (simp add: count_append_new)
    next
      case False
      show ?thesis
      proof (cases "q \<in> set b")
        case True
        then have "count_list b q \<noteq> 0" by (simp add: count_list_0_iff)
        moreover from b have "count_list b q \<le> count_list src q" by blast
        ultimately have "1 \<le> count_list src q" by linarith
        with False True show ?thesis by (simp add: count_append_new)
      next
        case no: False
        with False show ?thesis by (simp add: count_append_new)
      qed
    qed
  qed
  from merge_pass_rows[of "init_close_objs src" src ?P, OF l0 p0 app] j show ?thesis by blast
qed

subsection \<open>close_detect: the groups of a frame\<close>

lemma dedup_fold:
  "set (fold (\<lambda>ob cs. if length ob > 0 \<and> sort ob \<notin> set cs then cs @ [sort ob] else cs) objs cs)
     = set cs \<union> {sort ob | ob. ob \<in> set objs \<and> ob \<noteq> []}"
  "distinct cs \<Longrightarrow>
     distinct (fold (\<lambda>ob cs. if length ob > 0 \<and> sort ob \<notin> set cs then cs @ [sort ob] else cs) objs cs)"
  by (induction objs arbitrary: cs) auto

lemma set_dedup: "set (dedup objs) = {sort ob | ob. ob \<in> set objs \<and> ob \<noteq> []}"
  using dedup_fold(1)[of objs "[]"] by (simp add: dedup_def)


lemma sort_eq_Nil: "sort xs = [] \<longleftrightarrow> xs = []"
  by (simp only: length_0_conv[symmetric] length_sort)

lemma close_frame_nonempty: "g \<in> set (close_frame src) \<Longrightarrow> g \<noteq> []"
  by (auto simp: close_frame_def set_dedup sort_eq_Nil)

lemma close_frame_member:
  assumes "g \<in> set (close_frame src)"
  shows "\<exists>j < length src. set g = (close_rel src)\<^sup>+ `` {src ! j} \<and> sorted g \<and> g \<noteq> [] \<and>
           (\<forall>q. count_list g q \<le> count_list src q)"
proof -
  let ?objs = "merge_pass src (init_close_objs src)"
  from assms obtain ob where ob: "ob \<in> set ?objs" "ob \<noteq> []" "g = sort ob"
    by (auto simp: close_frame_def set_dedup)
  from ob(1) obtain j where j: "j < length src" "?objs ! j = ob"
    by (auto simp: in_set_conv_nth merge_pass_length)
  have "set g = (close_rel src)\<^sup>+ `` {src ! j}"
    using merge_pass_closure[OF j(1)] j(2) ob(3) by simp
  moreover have "sorted g" "g \<noteq> []" using ob(2,3) by (simp_all add: sort_eq_Nil)
  moreover have "\<forall>q. count_list g q \<le> count_list src q"
    using merge_pass_count[OF j(1)] j(2) ob(3) by (simp add: count_list_sort)
  ultimately show ?thesis using j(1) by blast
qed

lemma close_frame_of_row:
  assumes "j < length src" and "merge_pass src (init_close_objs src) ! j \<noteq> []"
  shows "sort (merge_pass src (init_close_objs src) ! j) \<in> set (close_frame src)"
  using assms by (auto simp: close_frame_def set_dedup merge_pass_length intro: nth_mem)


lemma close_class_self:
  assumes "(p, x) \<in> (close_rel src)\<^sup>+"
  shows "(p, p) \<in> (close_rel src)\<^sup>+"
proof -
  have sym: "sym ((close_rel src)\<^sup>+)" by (rule sym_trancl[OF sym_close_rel])
  from assms sym have "(x, p) \<in> (close_rel src)\<^sup>+" by (auto dest: symD)
  with assms show ?thesis by (rule trancl_trans)
qed



lemma close_detect_fold:
  "fold (\<lambda>src (close_sources, by_frame).
            (close_sources @ filter (\<lambda>g. length g > 0) (close_frame src),
             by_frame @ [close_frame src])) sbf (cs, bf)
   = (cs @ concat (map close_frame sbf), bf @ map close_frame sbf)"
proof (induction sbf arbitrary: cs bf)
  case Nil
  then show ?case by simp
next
  case (Cons src sbf)
  have "filter (\<lambda>g. length g > 0) (close_frame src) = close_frame src"
    by (rule filter_True) (auto dest: close_frame_nonempty)
  with Cons show ?case by simp
qed

lemma close_detect_eq:
  "close_detect sbf = (concat (map close_frame sbf), map close_frame sbf)"
  using close_detect_fold[of sbf "[]" "[]"] by (simp add: close_detect_def)

text \<open>
  C10, as the code has it. Every close-group of a frame is non-empty and is a member of the
  flat list \<^verbatim>\<open>close_sources\<close>, which holds nothing else; it holds two different positions,
  unless it is made of a single position that was detected more than once in the frame.
  Such groups are produced: a position detected more than once in a frame, with no other
  position of the frame within 4 pixels, gives a close-group made of it alone.
\<close>

theorem close_group_two_or_repeated:
  assumes "s < length sbf"
  shows "(\<forall>g \<in> set (snd (close_detect sbf) ! s).
            g \<in> set (fst (close_detect sbf)) \<and> g \<noteq> [] \<and>
            ((\<exists>p q. p \<in> set g \<and> q \<in> set g \<and> p \<noteq> q) \<or>
             (\<exists>c. set g = {c} \<and> 2 \<le> count_list (sbf ! s) c))) \<and>
         (\<forall>c. 2 \<le> count_list (sbf ! s) c \<and> (\<forall>q \<in> set (sbf ! s). is_close c q \<longrightarrow> q = c) \<longrightarrow>
            (\<exists>g \<in> set (snd (close_detect sbf) ! s). set g = {c})) \<and>
         (\<forall>g \<in> set (fst (close_detect sbf)).
            \<exists>s' < length sbf. g \<in> set (snd (close_detect sbf) ! s'))"
proof -
  let ?src = "sbf ! s"
  let ?R = "close_rel ?src"
  from assms have G: "snd (close_detect sbf) ! s = close_frame ?src" by (simp add: close_detect_eq)
  have one: "g \<in> set (fst (close_detect sbf)) \<and> g \<noteq> [] \<and>
            ((\<exists>p q. p \<in> set g \<and> q \<in> set g \<and> p \<noteq> q) \<or>
             (\<exists>c. set g = {c} \<and> 2 \<le> count_list ?src c))"
    if g: "g \<in> set (close_frame ?src)" for g
  proof -
    from assms g have 1: "g \<in> set (fst (close_detect sbf))"
      by (auto simp: close_detect_eq intro!: bexI[of _ ?src])
    from close_frame_member[OF g] obtain j where j: "j < length ?src"
      and sg: "set g = ?R\<^sup>+ `` {?src ! j}" and ne: "g \<noteq> []" by blast
    from ne obtain x where "x \<in> set g" by (cases g) auto
    with sg have px: "(?src ! j, x) \<in> ?R\<^sup>+" by auto
    from close_class_self[OF px] sg have self: "?src ! j \<in> set g" by auto
    have "(\<exists>p q. p \<in> set g \<and> q \<in> set g \<and> p \<noteq> q) \<or>
          (\<exists>c. set g = {c} \<and> 2 \<le> count_list ?src c)"
    proof (cases "\<exists>q \<in> set g. q \<noteq> ?src ! j")
      case True
      then obtain q where "q \<in> set g" "q \<noteq> ?src ! j" by blast
      with self have "\<exists>p q. p \<in> set g \<and> q \<in> set g \<and> p \<noteq> q"
        by (intro exI[of _ q] exI[of _ "?src ! j"]) simp
      then show ?thesis by (rule disjI1)
    next
      case False
      with self have single: "set g = {?src ! j}" by blast
      from tranclD[OF px] obtain y where y: "(?src ! j, y) \<in> ?R" by blast
      then have "(?src ! j, y) \<in> ?R\<^sup>+" by (rule r_into_trancl)
      then have "y \<in> set g" unfolding sg by (rule ImageI) simp
      with single have "y = ?src ! j" by blast
      with y have "(?src ! j, ?src ! j) \<in> ?R" by (simp only:)
      then have two: "2 \<le> count_list ?src (?src ! j)" by (simp only: close_rel_self)
      from single two have "set g = {?src ! j} \<and> 2 \<le> count_list ?src (?src ! j)"
        by (rule conjI)
      then have "\<exists>c. set g = {c} \<and> 2 \<le> count_list ?src c" by (rule exI)
      then show ?thesis by (rule disjI2)
    qed
    with 1 ne show ?thesis by (intro conjI)
  qed
  have two: "\<exists>g \<in> set (close_frame ?src). set g = {c}"
    if c: "2 \<le> count_list ?src c" and alone: "\<forall>q \<in> set ?src. is_close c q \<longrightarrow> q = c" for c
  proof -
    from c have cc: "(c, c) \<in> ?R" by (simp only: close_rel_self)
    then have "c \<in> set ?src" by (auto dest: close_rel_mem)
    then obtain j where j: "j < length ?src" "?src ! j = c" by (auto simp: in_set_conv_nth)
    have only: "q = c" if "(c, q) \<in> ?R" for q
    proof -
      from that have "q \<in> set ?src" by (auto dest: close_rel_mem)
      moreover from that have "is_close c q" by (auto simp: close_rel_def)
      ultimately show ?thesis using alone by blast
    qed
    have "q = c" if "(c, q) \<in> ?R\<^sup>+" for q
      using that
    proof (induction rule: trancl_induct)
      case (base y)
      then show ?case by (rule only)
    next
      case (step y z)
      from step(2,3) have "(c, z) \<in> ?R" by (simp only:)
      then show ?case by (rule only)
    qed
    moreover from cc have "(c, c) \<in> ?R\<^sup>+" by (rule r_into_trancl)
    ultimately have cls: "?R\<^sup>+ `` {c} = {c}" by blast
    let ?ob = "merge_pass ?src (init_close_objs ?src) ! j"
    have so: "set ?ob = {c}" using merge_pass_closure[OF j(1)] j(2) cls by simp
    then have "?ob \<noteq> []" by auto
    from close_frame_of_row[OF j(1) this] so show ?thesis
      by (intro bexI[of _ "sort ?ob"]) simp_all
  qed
  have three: "\<exists>s' < length sbf. g \<in> set (snd (close_detect sbf) ! s')"
    if "g \<in> set (fst (close_detect sbf))" for g
  proof -
    from that obtain src where "src \<in> set sbf" "g \<in> set (close_frame src)"
      by (auto simp: close_detect_eq)
    then obtain s' where "s' < length sbf" "g \<in> set (close_frame (sbf ! s'))"
      by (auto simp: in_set_conv_nth)
    then show ?thesis by (intro exI[of _ s']) (simp add: close_detect_eq)
  qed
  show ?thesis
    unfolding G
  proof (intro conjI ballI allI impI)
    fix g assume "g \<in> set (close_frame ?src)"
    from one[OF this] show "g \<in> set (fst (close_detect sbf))" "g \<noteq> []"
      "(\<exists>p q. p \<in> set g \<and> q \<in> set g \<and> p \<noteq> q) \<or>
       (\<exists>c. set g = {c} \<and> 2 \<le> count_list ?src c)" by simp_all
  next
    fix c assume "2 \<le> count_list ?src c \<and> (\<forall>q \<in> set ?src. is_close c q \<longrightarrow> q = c)"
    then show "\<exists>g \<in> set (close_frame ?src). set g = {c}" using two[of c] by simp
  next
    fix g assume "g \<in> set (fst (close_detect sbf))"
    then show "\<exists>s' < length sbf. g \<in> set (snd (close_detect sbf) ! s')" by (rule three)
  qed
qed

theorem close_group_two_or_repeated_witness:
  "close_detect [[(10, 11), (10, 11), (30, 30), (31, 31)]]
     = ([[(10, 11)], [(30, 30), (31, 31)]], [[[(10, 11)], [(30, 30), (31, 31)]]]) \<and>
   (\<exists>p q. p \<in> set [(30 :: int, 30 :: int), (31, 31)] \<and> q \<in> set [(30, 30), (31, 31)] \<and> p \<noteq> q) \<and>
   (\<exists>g \<in> set (snd (close_detect [[(10, 11), (10, 11), (30, 30), (31, 31)]]) ! 0).
      set g = {(10, 11)})"
proof -
  let ?sbf = "[[(10 :: int, 11 :: int), (10, 11), (30, 30), (31, 31)]]"
  have cd: "close_detect ?sbf
     = ([[(10, 11)], [(30, 30), (31, 31)]], [[[(10, 11)], [(30, 30), (31, 31)]]])"
    by (simp add: close_eval)
  have s: "(0 :: nat) < length ?sbf" by simp
  note th = close_group_two_or_repeated[OF s]
  have g: "[(30, 30), (31, 31)] \<in> set (snd (close_detect ?sbf) ! 0)" by (simp add: cd)
  from th g have "(\<exists>p q. p \<in> set [(30 :: int, 30 :: int), (31, 31)] \<and> q \<in> set [(30, 30), (31, 31)] \<and> p \<noteq> q) \<or>
        (\<exists>c. set [(30 :: int, 30 :: int), (31, 31)] = {c} \<and> 2 \<le> count_list (?sbf ! 0) c)"
    by blast
  moreover have "\<not> (\<exists>c. set [(30 :: int, 30 :: int), (31, 31)] = {c} \<and> 2 \<le> count_list (?sbf ! 0) c)"
    by auto
  ultimately have a: "\<exists>p q. p \<in> set [(30 :: int, 30 :: int), (31, 31)] \<and> q \<in> set [(30, 30), (31, 31)] \<and> p \<noteq> q"
    by blast
  have c2: "2 \<le> count_list (?sbf ! 0) (10, 11)" by simp
  have al: "\<forall>q \<in> set (?sbf ! 0). is_close (10, 11) q \<longrightarrow> q = (10, 11)"
    by (simp add: is_close_def)
  from th c2 al have b: "\<exists>g \<in> set (snd (close_detect ?sbf) ! 0). set g = {(10, 11)}" by blast
  from cd a b show ?thesis by blast
qed

text \<open>
  C10, as the claim states it, fails: two grid cells of one frame refine to the same pixel
  \<open>(10, 11)\<close>, the two detections are each other's neighbour, and the frame's only
  close-group is the single position \<open>(10, 11)\<close>.
\<close>

theorem singleton_close_group_counterexample:
  "\<not> isl (detect (\<lambda>x. x) (1 / 2) 4 [(star_image, pair_grid)]) \<and>
   sources_by_frame (projr (detect (\<lambda>x. x) (1 / 2) 4 [(star_image, pair_grid)]))
     = [[(10, 11), (10, 11)]] \<and>
   close_detect [[(10, 11), (10, 11)]] = ([[(10, 11)]], [[[(10, 11)]]])"
  using detect_pair_ok detect_pair_sbf close_pair by blast





subsection \<open>Union-find: roots\<close>

lemma root_is_root: "root_of parent x r \<Longrightarrow> parent r = Some r"
  by (induction rule: root_of.induct) auto

lemma root_of_dom: "root_of parent x r \<Longrightarrow> x \<in> dom parent"
  by (induction rule: root_of.induct) auto

lemma root_of_unique: "root_of parent x r \<Longrightarrow> root_of parent x r' \<Longrightarrow> r = r'"
proof (induction arbitrary: r' rule: root_of.induct)
  case (self x)
  from self(2) self(1) show ?case by (cases rule: root_of.cases) auto
next
  case (up x p r)
  from up(5) up(1,2) have "root_of parent p r'" by (cases rule: root_of.cases) auto
  then show ?case by (rule up.IH)
qed

lemma root_of_root: "parent r = Some r \<Longrightarrow> root_of parent r s \<longleftrightarrow> s = r"
  using root_of_unique[of parent r s r] by (auto intro: root_of.self)

lemma compress_root_aux:
  assumes xr: "root_of parent x r"
    and p': "\<And>z. parent' z = (if z = x then Some r else parent z)"
  shows "root_of parent y s \<Longrightarrow> root_of parent' y s"
proof (induction rule: root_of.induct)
  case (self y)
  show ?case
  proof (cases "y = x")
    case True
    with self xr have "r = y" using root_of_unique[OF xr root_of.self] by simp
    with True have "parent' y = Some y" by (simp add: p')
    then show ?thesis by (rule root_of.self)
  next
    case False
    with self have "parent' y = Some y" by (simp add: p')
    then show ?thesis by (rule root_of.self)
  qed
next
  case (up y p s)
  show ?case
  proof (cases "y = x")
    case True
    from up(1,2,3) have "root_of parent y s" by (rule root_of.up)
    with True xr have rs: "r = s" by (auto dest: root_of_unique)
    have rr: "parent r = Some r" by (rule root_is_root[OF xr])
    with up(1,2) True have rx: "r \<noteq> x" by auto
    with rr have "parent' r = Some r" by (simp add: p')
    then have "root_of parent' r r" by (rule root_of.self)
    moreover have "parent' x = Some r" by (simp add: p')
    ultimately have "root_of parent' x r" using rx by (intro root_of.up[of parent' x r r])
    with True rs show ?thesis by simp
  next
    case False
    with up(1) have "parent' y = Some p" by (simp add: p')
    from this up(2) up.IH show ?thesis by (rule root_of.up)
  qed
qed

lemma compress_root:
  "root_of parent x r \<Longrightarrow> root_of parent y s \<Longrightarrow> root_of (parent(x \<mapsto> r)) y s"
  by (rule compress_root_aux[where parent' = "parent(x \<mapsto> r)"]) simp_all

lemma link_root_aux:
  assumes rx: "parent rx = Some rx" and ry: "parent ry = Some ry" and ne: "rx \<noteq> ry"
    and p': "\<And>z. parent' z = (if z = ry then Some rx else parent z)"
  shows "root_of parent y s \<Longrightarrow> root_of parent' y (if s = ry then rx else s)"
proof (induction rule: root_of.induct)
  case (self y)
  show ?case
  proof (cases "y = ry")
    case True
    from rx ne have "parent' rx = Some rx" by (simp add: p')
    then have "root_of parent' rx rx" by (rule root_of.self)
    moreover have "parent' ry = Some rx" by (simp add: p')
    ultimately have "root_of parent' ry rx" using ne by (intro root_of.up[of parent' ry rx rx])
    with True show ?thesis by simp
  next
    case False
    with self have "parent' y = Some y" by (simp add: p')
    then have "root_of parent' y y" by (rule root_of.self)
    with False show ?thesis by simp
  qed
next
  case (up y p s)
  from up(1,2) ry have "y \<noteq> ry" by auto
  with up(1) have "parent' y = Some p" by (simp add: p')
  from this up(2) up.IH show ?case by (rule root_of.up)
qed

lemma link_root:
  "parent rx = Some rx \<Longrightarrow> parent ry = Some ry \<Longrightarrow> rx \<noteq> ry \<Longrightarrow> root_of parent y s \<Longrightarrow>
     root_of (parent(ry \<mapsto> rx)) y (if s = ry then rx else s)"
  by (rule link_root_aux[where parent' = "parent(ry \<mapsto> rx)"]) simp_all

lemma root_of_parent: "root_of parent y r \<Longrightarrow> parent y = Some p \<Longrightarrow> root_of parent p r"
  by (cases rule: root_of.cases) (auto intro: root_of.self)

lemma register_root_aux:
  assumes f: "forest parent" and c: "c \<notin> dom parent"
    and p': "\<And>z. parent' z = (if z = c then Some c else parent z)"
  shows "root_of parent' y s \<longleftrightarrow> root_of parent y s \<or> (y = c \<and> s = c)"
proof
  assume "root_of parent' y s"
  then show "root_of parent y s \<or> (y = c \<and> s = c)"
  proof (induction rule: root_of.induct)
    case (self y)
    then show ?case by (auto simp: p' intro: root_of.self split: if_splits)
  next
    case (up y p s)
    from up(1,2) have yc: "y \<noteq> c" by (auto simp: p' split: if_splits)
    with up(1) have py: "parent y = Some p" by (simp add: p')
    then have "y \<in> dom parent" by auto
    with f obtain r where "root_of parent y r" unfolding forest_def by blast
    from root_of_parent[OF this py] have "p \<in> dom parent" by (rule root_of_dom)
    with c have "p \<noteq> c" by auto
    with up.IH have "root_of parent p s" by simp
    with py up(2) show ?case by (auto intro: root_of.up)
  qed
next
  assume "root_of parent y s \<or> (y = c \<and> s = c)"
  then show "root_of parent' y s"
  proof
    assume "root_of parent y s"
    then show ?thesis
    proof (induction rule: root_of.induct)
      case (self y)
      with c have "parent' y = Some y" by (auto simp: p')
      then show ?case by (rule root_of.self)
    next
      case (up y p s)
      with c have "parent' y = Some p" by (auto simp: p')
      from this up(2) up.IH show ?case by (rule root_of.up)
    qed
  next
    assume "y = c \<and> s = c"
    moreover have "parent' c = Some c" by (simp add: p')
    ultimately show ?thesis by (auto intro: root_of.self)
  qed
qed

lemma register_root:
  "forest parent \<Longrightarrow> c \<notin> dom parent \<Longrightarrow>
     root_of (parent(c \<mapsto> c)) y s \<longleftrightarrow> root_of parent y s \<or> (y = c \<and> s = c)"
  by (rule register_root_aux[where parent' = "parent(c \<mapsto> c)"]) simp_all

text \<open>\<^verbatim>\<open>find\<close> returns the root, and path compression changes no root.\<close>

lemma find_root_of:
  assumes "root_of parent x r"
  shows "\<exists>parent'. find parent x = Some (Inr (parent', r)) \<and> dom parent' = dom parent \<and>
           (\<forall>y s. root_of parent y s \<longrightarrow> root_of parent' y s)"
  using assms
proof (induction rule: root_of.induct)
  case (self x)
  then have "find parent x = Some (Inr (parent, x))" by (subst find.simps) simp
  then show ?case by simp
next
  case (up x p r)
  from up.IH obtain parent1 where f1: "find parent p = Some (Inr (parent1, r))"
    and d1: "dom parent1 = dom parent"
    and k1: "\<And>y s. root_of parent y s \<Longrightarrow> root_of parent1 y s" by blast
  from up(1,2) f1 have "find parent x = Some (Inr (parent1(x \<mapsto> r), r))"
    by (subst find.simps) simp
  moreover from up(1) d1 have "dom (parent1(x \<mapsto> r)) = dom parent" by auto
  moreover have "root_of (parent1(x \<mapsto> r)) y s" if "root_of parent y s" for y s
  proof -
    from up(1,2,3) have "root_of parent x r" by (rule root_of.up)
    then have "root_of parent1 x r" by (rule k1)
    from compress_root[OF this k1[OF that]] show ?thesis .
  qed
  ultimately show ?case by blast
qed

lemma find_root_ok:
  assumes f: "forest parent" and x: "x \<in> dom parent"
  shows "\<exists>parent' r. find_root parent x = Inr (parent', r) \<and> root_of parent x r \<and>
           dom parent' = dom parent \<and> forest parent' \<and>
           (\<forall>y s. root_of parent' y s \<longleftrightarrow> root_of parent y s)"
proof -
  from f x obtain r where r: "root_of parent x r" unfolding forest_def by blast
  from find_root_of[OF r] obtain parent' where
    fd: "find parent x = Some (Inr (parent', r))" and d: "dom parent' = dom parent"
    and k: "\<And>y s. root_of parent y s \<Longrightarrow> root_of parent' y s" by blast
  have old: "root_of parent y s" if "root_of parent' y s" for y s
  proof -
    from that have "y \<in> dom parent" using root_of_dom[OF that] d by simp
    with f obtain s0 where s0: "root_of parent y s0" unfolding forest_def by blast
    from root_of_unique[OF k[OF s0] that] s0 show ?thesis by simp
  qed
  have "forest parent'"
    unfolding forest_def using f d k unfolding forest_def by blast
  with fd r d k old show ?thesis
    by (intro exI[of _ parent'] exI[of _ r]) (auto simp: find_root_def)
qed

subsection \<open>Union-find: the unions\<close>

lemma uf_le_refl: "uf_le pr pr"
  by (simp add: uf_le_def)

lemma uf_le_trans: "uf_le p q \<Longrightarrow> uf_le q r \<Longrightarrow> uf_le p r"
  unfolding uf_le_def by blast

lemma uf_leD: "uf_le pr pr' \<Longrightarrow> same_root (fst pr) a b \<Longrightarrow> same_root (fst pr') a b"
  unfolding uf_le_def by blast

lemma same_root_sym: "same_root parent a b \<Longrightarrow> same_root parent b a"
  unfolding same_root_def by blast

lemma same_root_trans: "same_root parent a b \<Longrightarrow> same_root parent b c \<Longrightarrow> same_root parent a c"
  unfolding same_root_def using root_of_unique by blast

lemma same_root_refl: "forest parent \<Longrightarrow> a \<in> dom parent \<Longrightarrow> same_root parent a a"
  unfolding same_root_def forest_def by blast

lemma same_root_dom: "same_root parent a b \<Longrightarrow> a \<in> dom parent \<and> b \<in> dom parent"
  unfolding same_root_def using root_of_dom by blast

lemma link_ok:
  assumes f: "forest p2" and x: "root_of p2 x rx" and y: "root_of p2 y ry" and ne: "rx \<noteq> ry"
  shows "forest (p2(ry \<mapsto> rx)) \<and> dom (p2(ry \<mapsto> rx)) = dom p2 \<and>
         (\<forall>a b. same_root p2 a b \<longrightarrow> same_root (p2(ry \<mapsto> rx)) a b) \<and>
         same_root (p2(ry \<mapsto> rx)) x y"
proof -
  let ?p3 = "p2(ry \<mapsto> rx)"
  have rx: "p2 rx = Some rx" and ry: "p2 ry = Some ry"
    using root_is_root[OF x] root_is_root[OF y] by simp_all
  have lk: "root_of ?p3 a (if s = ry then rx else s)" if "root_of p2 a s" for a s
    using link_root[OF rx ry ne that] .
  have d: "dom ?p3 = dom p2" using ry by auto
  have "forest ?p3"
    unfolding forest_def
  proof
    fix a assume "a \<in> dom ?p3"
    with d have "a \<in> dom p2" by simp
    with f obtain s where "root_of p2 a s" unfolding forest_def by blast
    from lk[OF this] show "\<exists>r. root_of ?p3 a r" by blast
  qed
  moreover have "same_root ?p3 a b" if "same_root p2 a b" for a b
  proof -
    from that obtain s where "root_of p2 a s" "root_of p2 b s" unfolding same_root_def by blast
    from lk[OF this(1)] lk[OF this(2)] show ?thesis unfolding same_root_def by blast
  qed
  moreover have "same_root ?p3 x y"
  proof -
    from lk[OF x] ne have "root_of ?p3 x rx" by simp
    moreover from lk[OF y] have "root_of ?p3 y rx" by simp
    ultimately show ?thesis unfolding same_root_def by blast
  qed
  ultimately show ?thesis using d by blast
qed

lemma lookup_dom: "k \<in> dom m \<Longrightarrow> \<exists>v. lookup m k = Inr v"
  by (auto simp: lookup_def)

lemma union_ok:
  assumes inv: "uf_inv pr" and x: "x \<in> dom (fst pr)" and y: "y \<in> dom (fst pr)"
  shows "\<exists>pr'. union pr x y = Inr pr' \<and> uf_inv pr' \<and> dom (fst pr') = dom (fst pr) \<and>
           uf_le pr pr' \<and> same_root (fst pr') x y"
proof -
  obtain parent rank where pr: "pr = (parent, rank)" by (cases pr)
  from inv pr have f: "forest parent" and dr: "dom rank = dom parent" by (simp_all add: uf_inv_def)
  from x y pr have x': "x \<in> dom parent" and y': "y \<in> dom parent" by simp_all
  from find_root_ok[OF f x'] obtain p1 rx where
    f1: "find_root parent x = Inr (p1, rx)" and x1: "root_of parent x rx"
    and d1: "dom p1 = dom parent" and fo1: "forest p1"
    and k1: "\<And>a s. root_of p1 a s \<longleftrightarrow> root_of parent a s" by blast
  from y' d1 have "y \<in> dom p1" by simp
  from find_root_ok[OF fo1 this] obtain p2 ry where
    f2: "find_root p1 y = Inr (p2, ry)" and y1: "root_of p1 y ry"
    and d2: "dom p2 = dom p1" and fo2: "forest p2"
    and k2: "\<And>a s. root_of p2 a s \<longleftrightarrow> root_of p1 a s" by blast
  have k: "\<And>a s. root_of p2 a s \<longleftrightarrow> root_of parent a s" by (simp add: k1 k2)
  have sk: "\<And>a b. same_root p2 a b \<longleftrightarrow> same_root parent a b" by (simp add: same_root_def k)
  have x2: "root_of p2 x rx" and y2: "root_of p2 y ry" using x1 y1 by (simp_all add: k k1)
  have d: "dom p2 = dom parent" by (simp add: d1 d2)
  show ?thesis
  proof (cases "rx = ry")
    case True
    with f1 f2 pr have "union pr x y = Inr (p2, rank)" by (simp add: union_def bind_def)
    moreover have "uf_inv (p2, rank)" using fo2 dr d by (simp add: uf_inv_def)
    moreover have "uf_le pr (p2, rank)" using pr d sk by (simp add: uf_le_def)
    moreover have "same_root p2 x y" using x2 y2 True unfolding same_root_def by blast
    ultimately show ?thesis using d pr by simp
  next
    case False
    have "rx \<in> dom rank" "ry \<in> dom rank"
      using root_is_root[OF x2] root_is_root[OF y2] d dr by auto
    then obtain nx ny where lx: "lookup rank rx = Inr nx" and ly: "lookup rank ry = Inr ny"
      and rxd: "rx \<in> dom rank"
      using lookup_dom[of rx rank] lookup_dom[of ry rank] by blast
    from link_ok[OF fo2 x2 y2 False] have A:
      "forest (p2(ry \<mapsto> rx))" "dom (p2(ry \<mapsto> rx)) = dom p2"
      "\<And>a b. same_root p2 a b \<Longrightarrow> same_root (p2(ry \<mapsto> rx)) a b"
      "same_root (p2(ry \<mapsto> rx)) x y" by blast+
    from False have "ry \<noteq> rx" by simp
    from link_ok[OF fo2 y2 x2 this] have B:
      "forest (p2(rx \<mapsto> ry))" "dom (p2(rx \<mapsto> ry)) = dom p2"
      "\<And>a b. same_root p2 a b \<Longrightarrow> same_root (p2(rx \<mapsto> ry)) a b"
      "same_root (p2(rx \<mapsto> ry)) x y" by (blast intro: same_root_sym)+
    have dr': "dom (rank(rx \<mapsto> nx + 1)) = dom rank" using rxd by auto
    consider "nx > ny" | "nx < ny" | "nx = ny" by linarith
    then show ?thesis
    proof cases
      case 1
      with f1 f2 pr lx ly False have "union pr x y = Inr (p2(ry \<mapsto> rx), rank)"
        by (simp add: union_def bind_def)
      moreover have "uf_inv (p2(ry \<mapsto> rx), rank)" using A(1,2) dr d by (simp add: uf_inv_def)
      moreover have "uf_le pr (p2(ry \<mapsto> rx), rank)"
        using pr d A(2,3) sk by (simp add: uf_le_def)
      ultimately show ?thesis using A(2,4) d pr by simp
    next
      case 2
      with f1 f2 pr lx ly False have "union pr x y = Inr (p2(rx \<mapsto> ry), rank)"
        by (simp add: union_def bind_def)
      moreover have "uf_inv (p2(rx \<mapsto> ry), rank)" using B(1,2) dr d by (simp add: uf_inv_def)
      moreover have "uf_le pr (p2(rx \<mapsto> ry), rank)"
        using pr d B(2,3) sk by (simp add: uf_le_def)
      ultimately show ?thesis using B(2,4) d pr by simp
    next
      case 3
      with f1 f2 pr lx ly False
      have "union pr x y = Inr (p2(ry \<mapsto> rx), rank(rx \<mapsto> nx + 1))"
        by (simp add: union_def bind_def)
      moreover have "uf_inv (p2(ry \<mapsto> rx), rank(rx \<mapsto> nx + 1))"
        using A(1,2) dr dr' d by (simp add: uf_inv_def)
      moreover have "uf_le pr (p2(ry \<mapsto> rx), rank(rx \<mapsto> nx + 1))"
        using pr d A(2,3) sk by (simp add: uf_le_def)
      ultimately show ?thesis using A(2,4) d pr by simp
    qed
  qed
qed

lemma register_ok:
  "uf_inv pr \<Longrightarrow>
     uf_inv (register sublist pr) \<and> uf_le pr (register sublist pr) \<and>
     dom (fst (register sublist pr)) = dom (fst pr) \<union> set sublist"
proof (induction sublist arbitrary: pr)
  case Nil
  then show ?case by (simp add: register_def uf_le_refl)
next
  case (Cons c cs)
  obtain parent rank where pr: "pr = (parent, rank)" by (cases pr)
  let ?step = "case parent c of None \<Rightarrow> (parent(c \<mapsto> c), rank(c \<mapsto> 0)) | Some p \<Rightarrow> (parent, rank)"
  have reg: "register (c # cs) pr = register cs ?step"
    by (simp add: register_def pr)
  from Cons.prems pr have f: "forest parent" and dr: "dom rank = dom parent"
    by (simp_all add: uf_inv_def)
  have step: "uf_inv ?step \<and> uf_le pr ?step \<and> dom (fst ?step) = insert c (dom parent)"
  proof (cases "parent c")
    case None
    then have c: "c \<notin> dom parent" by auto
    note rr = register_root[OF f c]
    have "forest (parent(c \<mapsto> c))"
      unfolding forest_def
    proof
      fix a assume "a \<in> dom (parent(c \<mapsto> c))"
      then have "a = c \<or> a \<in> dom parent" by auto
      with f have "(\<exists>r. root_of parent a r) \<or> a = c" unfolding forest_def by blast
      then show "\<exists>r. root_of (parent(c \<mapsto> c)) a r" using rr by blast
    qed
    moreover have "same_root (parent(c \<mapsto> c)) a b" if "same_root parent a b" for a b
      using that rr unfolding same_root_def by blast
    ultimately show ?thesis using None dr pr by (auto simp: uf_inv_def uf_le_def)
  next
    case (Some p)
    then have "insert c (dom parent) = dom parent" by auto
    with Some Cons.prems pr show ?thesis by (simp add: uf_le_refl)
  qed
  from Cons.IH[of ?step] step
  have "uf_inv (register cs ?step)" "uf_le ?step (register cs ?step)"
    "dom (fst (register cs ?step)) = dom (fst ?step) \<union> set cs" by blast+
  with step reg pr show ?case by (auto intro: uf_le_trans)
qed

lemma union_chain_ok:
  "uf_inv pr \<Longrightarrow> set g \<subseteq> dom (fst pr) \<Longrightarrow>
     \<exists>pr'. union_chain g pr = Inr pr' \<and> uf_inv pr' \<and> dom (fst pr') = dom (fst pr) \<and>
       uf_le pr pr' \<and> (\<forall>a \<in> set g. \<forall>b \<in> set g. same_root (fst pr') a b)"
proof (induction g pr rule: union_chain.induct)
  case (1 x y zs pr)
  from union_ok[OF "1.prems"(1), of x y] "1.prems"(2) obtain pr1 where
    u: "union pr x y = Inr pr1" and i1: "uf_inv pr1" and d1: "dom (fst pr1) = dom (fst pr)"
    and l1: "uf_le pr pr1" and s1: "same_root (fst pr1) x y" by auto
  from "1.prems"(2) d1 have "set (y # zs) \<subseteq> dom (fst pr1)" by simp
  from "1.IH"[OF i1 this] obtain pr2 where
    c: "union_chain (y # zs) pr1 = Inr pr2" and i2: "uf_inv pr2"
    and d2: "dom (fst pr2) = dom (fst pr1)" and l2: "uf_le pr1 pr2"
    and s2: "\<forall>a \<in> set (y # zs). \<forall>b \<in> set (y # zs). same_root (fst pr2) a b" by blast
  from l2 s1 have xy: "same_root (fst pr2) x y" by (rule uf_leD)
  have "same_root (fst pr2) a b" if "a \<in> set (x # y # zs)" "b \<in> set (x # y # zs)" for a b
  proof -
    have "same_root (fst pr2) a y"
      using that(1) s2 xy by auto
    moreover have "same_root (fst pr2) y b"
      using that(2) s2 xy by (auto intro: same_root_sym)
    ultimately show ?thesis by (rule same_root_trans)
  qed
  with u c i2 d1 d2 l1 l2 show ?case
    by (intro exI[of _ pr2]) (auto simp: bind_def intro: uf_le_trans)
next
  case (2 x pr)
  then show ?case by (auto simp: uf_le_refl uf_inv_def intro: same_root_refl)
next
  case (3 pr)
  then show ?case by (simp add: uf_le_refl)
qed

lemma group_unions_ok:
  "uf_inv pr \<Longrightarrow>
     \<exists>pr'. group_unions css pr = Inr pr' \<and> uf_inv pr' \<and>
       dom (fst pr') = dom (fst pr) \<union> \<Union>(set ` set css) \<and> uf_le pr pr' \<and>
       (\<forall>g \<in> set css. \<forall>a \<in> set g. \<forall>b \<in> set g. same_root (fst pr') a b)"
proof (induction css arbitrary: pr)
  case Nil
  then show ?case by (simp add: uf_le_refl)
next
  case (Cons g css)
  from register_ok[OF Cons.prems, of g] have
    i0: "uf_inv (register g pr)" and l0: "uf_le pr (register g pr)"
    and d0: "dom (fst (register g pr)) = dom (fst pr) \<union> set g" by blast+
  from d0 have "set g \<subseteq> dom (fst (register g pr))" by simp
  from union_chain_ok[OF i0 this] obtain pr1 where
    c: "union_chain g (register g pr) = Inr pr1" and i1: "uf_inv pr1"
    and d1: "dom (fst pr1) = dom (fst (register g pr))" and l1: "uf_le (register g pr) pr1"
    and s1: "\<forall>a \<in> set g. \<forall>b \<in> set g. same_root (fst pr1) a b" by blast
  from Cons.IH[OF i1] obtain pr2 where
    r: "group_unions css pr1 = Inr pr2" and i2: "uf_inv pr2"
    and d2: "dom (fst pr2) = dom (fst pr1) \<union> \<Union>(set ` set css)" and l2: "uf_le pr1 pr2"
    and s2: "\<forall>g \<in> set css. \<forall>a \<in> set g. \<forall>b \<in> set g. same_root (fst pr2) a b" by blast
  from s1 l2 have s1': "\<forall>a \<in> set g. \<forall>b \<in> set g. same_root (fst pr2) a b"
    by (blast intro: uf_leD)
  have "group_unions (g # css) pr = Inr pr2" using c r by (simp add: bind_def)
  moreover have "uf_le pr pr2" using l0 l1 l2 by (blast intro: uf_le_trans)
  moreover have "dom (fst pr2) = dom (fst pr) \<union> \<Union>(set ` set (g # css))"
    using d0 d1 d2 by auto
  ultimately show ?case using i2 s1' s2 by (intro exI[of _ pr2]) simp
qed

subsection \<open>Union-find: collecting the groups\<close>

lemma map_of_dict_set: "map_of (dict_set k v kvs) = (map_of kvs)(k \<mapsto> v)"
  by (induction kvs) (auto simp: fun_eq_iff)

lemma fst_dict_set:
  "map fst (dict_set k v kvs) = (if k \<in> fst ` set kvs then map fst kvs else map fst kvs @ [k])"
proof (induction kvs)
  case Nil
  show ?case by simp
next
  case (Cons kv kvs)
  obtain k' v' where kv: "kv = (k', v')" by (cases kv)
  show ?case
  proof (cases "k = k'")
    case True
    with kv show ?thesis by simp
  next
    case False
    with kv Cons show ?thesis by simp
  qed
qed

lemma distinct_dict_set: "distinct (map fst kvs) \<Longrightarrow> distinct (map fst (dict_set k v kvs))"
  by (simp add: fst_dict_set)

lemma dict_set_fresh: "k \<notin> fst ` set kvs \<Longrightarrow> dict_set k v kvs = kvs @ [(k, v)]"
  by (induction kvs) auto

lemma grouped_update_dict_set:
  "grouped_update rt sublist grouped =
     dict_set rt (append_new (case map_of grouped rt of None \<Rightarrow> [] | Some ms \<Rightarrow> ms) sublist) grouped"
proof (cases "map_of grouped rt")
  case None
  then have "rt \<notin> fst ` set grouped" by (simp add: map_of_eq_None_iff)
  with None show ?thesis by (simp add: grouped_update_def dict_set_fresh)
next
  case (Some ms)
  then show ?thesis by (simp add: grouped_update_def)
qed

lemma grouped_update_good:
  assumes g: "good_grouped R grouped" and ne: "sublist \<noteq> []"
    and rt: "\<forall>m \<in> set sublist. R m rt"
  shows "good_grouped R (grouped_update rt sublist grouped)"
proof -
  let ?old = "case map_of grouped rt of None \<Rightarrow> [] | Some ms \<Rightarrow> ms"
  have old: "\<forall>m \<in> set ?old. R m rt"
  proof (cases "map_of grouped rt")
    case None
    then show ?thesis by simp
  next
    case (Some ms)
    with g have "\<forall>m \<in> set ms. R m rt" unfolding good_grouped_def by blast
    with Some show ?thesis by simp
  qed
  have new: "append_new ?old sublist \<noteq> []"
    using ne set_append_new[of ?old sublist] by (metis Un_empty set_empty)
  have mem: "\<forall>m \<in> set (append_new ?old sublist). R m rt"
    using old rt by (auto simp: set_append_new)
  show ?thesis
    unfolding good_grouped_def grouped_update_dict_set map_of_dict_set
    using g new mem by (auto simp: good_grouped_def distinct_dict_set)
qed

lemma grouped_update_covers: "covered (grouped_update rt sublist grouped) sublist"
  unfolding covered_def grouped_update_dict_set map_of_dict_set
  by (intro exI[of _ rt] exI[of _ "append_new (case map_of grouped rt of None \<Rightarrow> [] | Some ms \<Rightarrow> ms) sublist"])
     (simp add: set_append_new)

lemma grouped_update_mono:
  assumes "covered grouped g"
  shows "covered (grouped_update rt sublist grouped) g"
proof -
  from assms obtain k ms where k: "map_of grouped k = Some ms" "set g \<subseteq> set ms"
    unfolding covered_def by blast
  show ?thesis
  proof (cases "k = rt")
    case True
    with k show ?thesis
      unfolding covered_def grouped_update_dict_set map_of_dict_set
      by (intro exI[of _ rt] exI[of _ "append_new ms sublist"]) (auto simp: set_append_new)
  next
    case False
    with k show ?thesis
      unfolding covered_def grouped_update_dict_set map_of_dict_set
      by (intro exI[of _ k] exI[of _ ms]) simp
  qed
qed

lemma collect_ok:
  assumes "forest parent" and "\<And>a s. root_of parent a s \<longleftrightarrow> R a s"
    and "\<forall>g \<in> set css. g \<noteq> [] \<and> set g \<subseteq> dom parent \<and> (\<forall>a \<in> set g. \<forall>b \<in> set g. same_root parent a b)"
    and "good_grouped R grouped"
  shows "\<exists>grouped'. collect css parent grouped = Inr grouped' \<and> good_grouped R grouped' \<and>
           (\<forall>g \<in> set css. covered grouped' g) \<and> (\<forall>g. covered grouped g \<longrightarrow> covered grouped' g)"
  using assms
proof (induction css arbitrary: parent grouped)
  case Nil
  then show ?case by simp
next
  case (Cons g css)
  from Cons.prems(3) have ne: "g \<noteq> []" and sub: "set g \<subseteq> dom parent"
    and sr: "\<forall>a \<in> set g. \<forall>b \<in> set g. same_root parent a b" by simp_all
  from ne have nth: "py_nth g 0 = Inr (hd g)" by (cases g) (simp_all add: py_nth_def)
  from ne sub have hd: "hd g \<in> dom parent" by (cases g) auto
  from find_root_ok[OF Cons.prems(1) hd] obtain parent' rt where
    fr: "find_root parent (hd g) = Inr (parent', rt)" and rt: "root_of parent (hd g) rt"
    and d: "dom parent' = dom parent" and fo: "forest parent'"
    and k: "\<And>a s. root_of parent' a s \<longleftrightarrow> root_of parent a s" by blast
  have members: "\<forall>m \<in> set g. R m rt"
  proof
    fix m assume m: "m \<in> set g"
    from ne have "hd g \<in> set g" by simp
    with sr m have "same_root parent m (hd g)" by blast
    with rt have "root_of parent m rt" unfolding same_root_def using root_of_unique by blast
    then show "R m rt" by (simp add: Cons.prems(2))
  qed
  let ?grouped1 = "grouped_update rt g grouped"
  have g1: "good_grouped R ?grouped1"
    by (rule grouped_update_good[OF Cons.prems(4) ne members])
  have R': "\<And>a s. root_of parent' a s \<longleftrightarrow> R a s" by (simp add: k Cons.prems(2))
  have rest: "\<forall>g \<in> set css. g \<noteq> [] \<and> set g \<subseteq> dom parent' \<and>
                (\<forall>a \<in> set g. \<forall>b \<in> set g. same_root parent' a b)"
    using Cons.prems(3) d by (simp add: same_root_def k)
  from Cons.IH[OF fo R' rest g1] obtain grouped' where
    c: "collect css parent' ?grouped1 = Inr grouped'" and g': "good_grouped R grouped'"
    and cov: "\<forall>g \<in> set css. covered grouped' g"
    and mono: "\<forall>g. covered ?grouped1 g \<longrightarrow> covered grouped' g" by blast
  have "collect (g # css) parent grouped = Inr grouped'"
    using nth fr c by (simp add: bind_def)
  moreover have "covered grouped' g" using mono grouped_update_covers by blast
  moreover have "\<forall>h. covered grouped h \<longrightarrow> covered grouped' h"
    using mono grouped_update_mono by blast
  ultimately show ?case using g' cov by (intro exI[of _ grouped']) simp
qed

lemma map_of_nth:
  "distinct (map fst kvs) \<Longrightarrow> i < length kvs \<Longrightarrow> map_of kvs (fst (kvs ! i)) = Some (snd (kvs ! i))"
  by (simp add: map_of_eq_Some_iff[THEN iffD2])

lemma map_of_index:
  "map_of kvs k = Some v \<Longrightarrow> \<exists>i < length kvs. kvs ! i = (k, v)"
  by (meson in_set_conv_nth map_of_SomeD)

lemma group_ok:
  assumes ne: "\<forall>g \<in> set css. g \<noteq> []"
  shows "\<exists>gs. group css = Inr gs \<and> partition_of css gs"
proof -
  have "uf_inv (Map.empty, Map.empty)" by (simp add: uf_inv_def forest_def)
  from group_unions_ok[OF this, of css] obtain pr where
    gu: "group_unions css (Map.empty, Map.empty) = Inr pr" and inv: "uf_inv pr"
    and d: "dom (fst pr) = \<Union>(set ` set css)"
    and sr: "\<forall>g \<in> set css. \<forall>a \<in> set g. \<forall>b \<in> set g. same_root (fst pr) a b" by auto
  define R where "R = root_of (fst pr)"
  have fo: "forest (fst pr)" using inv by (simp add: uf_inv_def)
  have R: "\<And>a s. root_of (fst pr) a s \<longleftrightarrow> R a s" by (simp add: R_def)
  have pre: "\<forall>g \<in> set css. g \<noteq> [] \<and> set g \<subseteq> dom (fst pr) \<and>
               (\<forall>a \<in> set g. \<forall>b \<in> set g. same_root (fst pr) a b)"
    using ne d sr by auto
  have "good_grouped R []" by (simp add: good_grouped_def)
  from collect_ok[OF fo R pre this] obtain grouped where
    c: "collect css (fst pr) [] = Inr grouped" and good: "good_grouped R grouped"
    and cov: "\<forall>g \<in> set css. covered grouped g" by blast
  let ?gs = "map snd grouped"
  have grp: "group css = Inr ?gs" using gu c by (simp add: group_def bind_def)
  have dist: "distinct (map fst grouped)" using good by (simp add: good_grouped_def)
  have entry: "?gs ! i \<noteq> [] \<and> (\<forall>m \<in> set (?gs ! i). R m (fst (grouped ! i)))"
    if "i < length ?gs" for i
  proof -
    from that have "map_of grouped (fst (grouped ! i)) = Some (snd (grouped ! i))"
      using map_of_nth[OF dist] by simp
    with good that show ?thesis unfolding good_grouped_def by (metis length_map nth_map)
  qed
  have Runique: "R a s \<Longrightarrow> R a s' \<Longrightarrow> s = s'" for a s s'
    unfolding R_def by (rule root_of_unique)
  have disj: "i = j" if "i < length ?gs" "j < length ?gs" "m \<in> set (?gs ! i)" "m \<in> set (?gs ! j)"
    for i j m
  proof -
    from entry[OF that(1)] that(3) have "R m (fst (grouped ! i))" by blast
    moreover from entry[OF that(2)] that(4) have "R m (fst (grouped ! j))" by blast
    ultimately have "fst (grouped ! i) = fst (grouped ! j)" by (rule Runique)
    then have "map fst grouped ! i = map fst grouped ! j" using that(1,2) by simp
    with dist that(1,2) show ?thesis using nth_eq_iff_index_eq[of "map fst grouped" i j] by simp
  qed
  have place: "\<exists>i < length ?gs. p \<in> set (?gs ! i) \<and> fst (grouped ! i) = r"
    if "p \<in> set g" "g \<in> set css" "R p r" for p g r
  proof -
    from cov that(2) obtain k ms where km: "map_of grouped k = Some ms" "set g \<subseteq> set ms"
      unfolding covered_def by blast
    from map_of_index[OF km(1)] obtain i where i: "i < length grouped" "grouped ! i = (k, ms)"
      by blast
    from km good that(1) have "R p k" unfolding good_grouped_def by blast
    from Runique[OF this that(3)] have "k = r" .
    with i km(2) that(1) show ?thesis by (intro exI[of _ i]) auto
  qed
  have conn: "\<exists>r. R p r \<and> R q r \<and> (\<exists>g \<in> set css. p \<in> set g) \<and> (\<exists>g \<in> set css. q \<in> set g)"
    if "(p, q) \<in> (co_occur css)\<^sup>+" for p q
    using that
  proof (induction rule: trancl_induct)
    case (base q)
    then obtain g where g: "g \<in> set css" "p \<in> set g" "q \<in> set g" unfolding co_occur_def by blast
    with sr have "same_root (fst pr) p q" by blast
    with g show ?case unfolding same_root_def R_def by blast
  next
    case (step q q')
    from step(2) obtain g where g: "g \<in> set css" "q \<in> set g" "q' \<in> set g"
      unfolding co_occur_def by blast
    with sr have "same_root (fst pr) q q'" by blast
    then obtain s where s: "R q s" "R q' s" unfolding same_root_def R_def by blast
    from step.IH obtain r where r: "R p r" "R q r" "\<exists>g \<in> set css. p \<in> set g" by blast
    from Runique[OF r(2) s(1)] r s g show ?case by blast
  qed
  have closure: "\<exists>i < length ?gs. p \<in> set (?gs ! i) \<and> q \<in> set (?gs ! i)"
    if "(p, q) \<in> (co_occur css)\<^sup>+" for p q
  proof -
    from conn[OF that] obtain r g h where r: "R p r" "R q r"
      and g: "g \<in> set css" "p \<in> set g" and h: "h \<in> set css" "q \<in> set h" by blast
    from place[OF g(2) g(1) r(1)] obtain i where
      i: "i < length ?gs" "p \<in> set (?gs ! i)" "fst (grouped ! i) = r" by blast
    from place[OF h(2) h(1) r(2)] obtain j where
      j: "j < length ?gs" "q \<in> set (?gs ! j)" "fst (grouped ! j) = r" by blast
    from i(3) j(3) have "map fst grouped ! i = map fst grouped ! j" using i(1) j(1) by simp
    with dist i(1) j(1) have "i = j" using nth_eq_iff_index_eq[of "map fst grouped" i j] by simp
    with i j show ?thesis by blast
  qed
  have inside: "set (?gs ! i) \<subseteq> \<Union>(set ` set css)" if "i < length ?gs" for i
  proof
    fix m assume "m \<in> set (?gs ! i)"
    with entry[OF that] have "root_of (fst pr) m (fst (grouped ! i))" unfolding R_def by blast
    from root_of_dom[OF this] d show "m \<in> \<Union>(set ` set css)" by simp
  qed
  have "partition_of css ?gs"
    unfolding partition_of_def using entry inside disj closure by blast
  with grp show ?thesis by blast
qed

subsection \<open>The group IDs\<close>

lemma enumerate_snoc: "enumerate n (xs @ [x]) = enumerate n xs @ [(n + length xs, x)]"
  by (simp add: enumerate_append_eq)

lemma id_map_distinct:
  "distinct (map sort gs) \<Longrightarrow> id_map gs = zip (map sort gs) (map int [0 ..< length gs])"
proof (induction gs rule: rev_induct)
  case Nil
  show ?case by (simp add: id_map_def)
next
  case (snoc g gs)
  from snoc.prems have d: "distinct (map sort gs)" and fresh: "sort g \<notin> set (map sort gs)"
    by simp_all
  have ih: "id_map gs = zip (map sort gs) (map int [0 ..< length gs])" by (rule snoc.IH[OF d])
  have "fst ` set (zip (map sort gs) (map int [0 ..< length gs])) = set (map sort gs)"
    by (metis length_map length_upt map_fst_zip minus_nat.diff_0 set_map)
  with fresh have "sort g \<notin> fst ` set (id_map gs)" by (simp add: ih)
  then have "id_map (gs @ [g]) = id_map gs @ [(sort g, int (length gs))]"
    by (simp add: id_map_def enumerate_snoc dict_set_fresh)
  then show ?case by (simp add: ih)
qed

lemma inner_fold:
  "fold (\<lambda>coord m'. m'(coord \<mapsto> gid)) g m c = (if c \<in> set g then Some gid else m c)"
  by (induction g arbitrary: m) auto

lemma position_fold_notin:
  "(\<forall>item \<in> set items. c \<notin> set (fst item)) \<Longrightarrow>
     fold (\<lambda>(g, group_id) m. fold (\<lambda>coord m'. m'(coord \<mapsto> group_id)) g m) items m c = m c"
  by (induction items arbitrary: m) (auto simp: inner_fold)

lemma position_fold_in:
  assumes "c \<in> set g" and "\<forall>item \<in> set post. c \<notin> set (fst item)"
  shows "fold (\<lambda>(g, group_id) m. fold (\<lambda>coord m'. m'(coord \<mapsto> group_id)) g m)
           (pre @ (g, gid) # post) m c = Some gid"
  using assms by (simp add: position_fold_notin inner_fold)

lemma sort_eq_set: "sort xs = sort ys \<Longrightarrow> set xs = set ys"
  by (metis set_sort)

lemma partition_distinct_sort:
  assumes ne: "\<forall>i < length gs. gs ! i \<noteq> []"
    and dj: "\<forall>i < length gs. \<forall>j < length gs. \<forall>m. m \<in> set (gs ! i) \<and> m \<in> set (gs ! j) \<longrightarrow> i = j"
  shows "distinct (map sort gs)"
  unfolding distinct_conv_nth
proof (intro allI impI)
  fix i j assume i: "i < length (map sort gs)" and j: "j < length (map sort gs)" and ij: "i \<noteq> j"
  show "map sort gs ! i \<noteq> map sort gs ! j"
  proof
    assume "map sort gs ! i = map sort gs ! j"
    with i j have "sort (gs ! i) = sort (gs ! j)" by simp
    then have "set (gs ! i) = set (gs ! j)" by (rule sort_eq_set)
    moreover from ne i obtain m where "m \<in> set (gs ! i)" by (cases "gs ! i") auto
    ultimately have "m \<in> set (gs ! i) \<and> m \<in> set (gs ! j)" by simp
    with dj i j have "i = j" by (metis length_map)
    with ij show False by simp
  qed
qed

lemma position_to_id_member:
  assumes ne: "\<forall>i < length gs. gs ! i \<noteq> []"
    and dj: "\<forall>i < length gs. \<forall>j < length gs. \<forall>m. m \<in> set (gs ! i) \<and> m \<in> set (gs ! j) \<longrightarrow> i = j"
    and i: "i < length gs" and c: "c \<in> set (gs ! i)"
  shows "position_to_id (id_map gs) c = Some (int i)"
proof -
  define items where "items = zip (map sort gs) (map int [0 ..< length gs])"
  have im: "id_map gs = items"
    unfolding items_def by (rule id_map_distinct[OF partition_distinct_sort[OF ne dj]])
  have len: "length items = length gs" by (simp add: items_def)
  have nth: "items ! j = (sort (gs ! j), int j)" if "j < length gs" for j
    using that by (simp add: items_def)
  from i len have "items = take i items @ items ! i # drop (Suc i) items"
    by (simp add: id_take_nth_drop)
  with nth[OF i] have split: "items = take i items @ (sort (gs ! i), int i) # drop (Suc i) items"
    by simp
  have post: "\<forall>item \<in> set (drop (Suc i) items). c \<notin> set (fst item)"
  proof
    fix item assume "item \<in> set (drop (Suc i) items)"
    then obtain k where k: "k < length (drop (Suc i) items)" "item = drop (Suc i) items ! k"
      by (auto simp: in_set_conv_nth)
    from k(1) len have lt: "Suc i + k < length gs" by simp
    from k(2) lt len have "item = items ! (Suc i + k)" by simp
    with nth[OF lt] have item: "item = (sort (gs ! (Suc i + k)), int (Suc i + k))" by simp
    have "c \<notin> set (gs ! (Suc i + k))"
    proof
      assume "c \<in> set (gs ! (Suc i + k))"
      with dj i lt c have "i = Suc i + k" by blast
      then show False by simp
    qed
    with item show "c \<notin> set (fst item)" by simp
  qed
  have "c \<in> set (sort (gs ! i))" using c by simp
  from position_fold_in[OF this post, of "take i items" "int i" Map.empty]
  have "fold (\<lambda>(g, group_id) m. fold (\<lambda>coord m'. m'(coord \<mapsto> group_id)) g m)
          (take i items @ (sort (gs ! i), int i) # drop (Suc i) items) Map.empty c = Some (int i)" .
  with arg_cong[OF split, of "\<lambda>l. fold (\<lambda>(g, group_id) m. fold (\<lambda>coord m'. m'(coord \<mapsto> group_id)) g m) l Map.empty c"]
  show ?thesis unfolding position_to_id_def im by (simp only:)
qed

lemma IDassign_fold:
  "fold (\<lambda>coord result. result(coord \<mapsto> v coord)) positions m c =
     (if c \<in> set positions then Some (v c) else m c)"
  by (induction positions arbitrary: m) auto

lemma IDassign_apply:
  "IDassign gs positions c =
     (if c \<in> set positions
      then Some (case position_to_id (id_map gs) c of None \<Rightarrow> - 1 | Some group_id \<Rightarrow> group_id)
      else None)"
  unfolding IDassign_def by (simp add: IDassign_fold)

subsection \<open>Close-groups hold detected positions\<close>

lemma merge_rows_within:
  assumes len: "length objs = n" and sub: "\<forall>j < n. set (objs ! j) \<subseteq> A" and m: "m \<le> n"
  shows "length (fold (merge_row src) [0 ..< m] objs) = n \<and>
         (\<forall>j < n. set (fold (merge_row src) [0 ..< m] objs ! j) \<subseteq> A)"
  using m
proof (induction m)
  case 0
  with len sub show ?case by simp
next
  case (Suc m)
  let ?o = "fold (merge_row src) [0 ..< m] objs"
  from Suc have l: "length ?o = n" and s: "\<forall>j < n. set (?o ! j) \<subseteq> A" and mn: "m < n" by simp_all
  from mn l have m': "m < length ?o" by simp
  have "length (merge_row src m ?o) = n" using merge_row_nth(1)[OF m'] l by simp
  moreover have "set (merge_row src m ?o ! j) \<subseteq> A" if "j < n" for j
  proof -
    from that l have "j < length ?o" by simp
    from merge_row_nth(2)[OF m' this] s that mn show ?thesis
      by (auto simp: set_append_new)
  qed
  ultimately show ?case by simp
qed

lemma close_frame_subset:
  assumes "g \<in> set (close_frame src)"
  shows "set g \<subseteq> set src"
proof -
  let ?n = "length src"
  have l0: "length (init_close_objs src) = ?n" by (simp add: init_close_objs_def)
  have s0: "\<forall>j < ?n. set (init_close_objs src ! j) \<subseteq> set src"
    by (auto simp: init_close_objs_def neighbours_def)
  from merge_rows_within[OF l0 s0 order_refl, of src]
  have l: "length (merge_pass src (init_close_objs src)) = ?n"
    and s: "\<forall>j < ?n. set (merge_pass src (init_close_objs src) ! j) \<subseteq> set src"
    by (simp_all add: merge_pass_def)
  from assms obtain ob where ob: "ob \<in> set (merge_pass src (init_close_objs src))" "g = sort ob"
    by (auto simp: close_frame_def set_dedup)
  from ob(1) l obtain j where "j < ?n" "ob = merge_pass src (init_close_objs src) ! j"
    by (auto simp: in_set_conv_nth)
  with s ob(2) show ?thesis by simp
qed

lemma close_sources_detected:
  assumes d: "detect rnd t gs frs = Inr d"
    and g: "g \<in> set (fst (close_detect (sources_by_frame d)))"
  shows "set g \<subseteq> set (sources d)"
proof -
  from g obtain src where src: "src \<in> set (sources_by_frame d)" "g \<in> set (close_frame src)"
    by (auto simp: close_detect_eq)
  from src(1) obtain fr where fr: "fr \<in> set frs"
    "src = sort (map pos (frame_events rnd t gs fr))"
    unfolding detect_events(3)[OF d] by auto
  have "set (sources d) = pos ` (\<Union>fr \<in> set frs. set (frame_events rnd t gs fr))"
    unfolding detect_events(1)[OF d] by (simp add: all_events_def)
  moreover have "set src = pos ` set (frame_events rnd t gs fr)" by (simp add: fr(2))
  ultimately have "set src \<subseteq> set (sources d)" using fr(1) by blast
  with close_frame_subset[OF src(2)] show ?thesis by blast
qed

subsection \<open>The closure law of the group IDs\<close>

lemma position_to_id_outside:
  assumes ne: "\<forall>i < length gs. gs ! i \<noteq> []"
    and dj: "\<forall>i < length gs. \<forall>j < length gs. \<forall>m. m \<in> set (gs ! i) \<and> m \<in> set (gs ! j) \<longrightarrow> i = j"
    and c: "\<forall>g \<in> set gs. c \<notin> set g"
  shows "position_to_id (id_map gs) c = None"
proof -
  have im: "id_map gs = zip (map sort gs) (map int [0 ..< length gs])"
    by (rule id_map_distinct[OF partition_distinct_sort[OF ne dj]])
  have "\<forall>item \<in> set (id_map gs). c \<notin> set (fst item)"
  proof
    fix item assume "item \<in> set (id_map gs)"
    then have "fst item \<in> set (map sort gs)" unfolding im by (metis in_set_zipE prod.collapse)
    then obtain g where "g \<in> set gs" "fst item = sort g" by auto
    with c show "c \<notin> set (fst item)" by simp
  qed
  from position_fold_notin[OF this, of Map.empty] show ?thesis by (simp add: position_to_id_def)
qed

lemma trancl_ends:
  "(p, q) \<in> (co_occur css)\<^sup>+ \<Longrightarrow> (\<exists>g \<in> set css. p \<in> set g) \<and> (\<exists>g \<in> set css. q \<in> set g)"
proof (induction rule: trancl_induct)
  case (base q)
  then show ?case unfolding co_occur_def by blast
next
  case (step q q')
  then show ?case unfolding co_occur_def by blast
qed

text \<open>
  What the group IDs of a run are. \<^verbatim>\<open>group_and_id\<close> returns whenever \<^verbatim>\<open>detect\<close> does;
  two positions connected by a chain of co-memberships in close-groups have the same ID,
  which is not negative; a detected position that is in no close-group has the ID \<open>-1\<close>.
\<close>

lemma pipeline_group_ids:
  assumes d: "detect rnd t gs frs = Inr d"
  shows "\<exists>r. pipeline rnd t gs frs = Inr r \<and> det r = d \<and>
     close_sources_by_frame r = map close_frame (sources_by_frame d) \<and>
     (\<forall>p q. (p, q) \<in> (co_occur (concat (close_sources_by_frame r)))\<^sup>+ \<longrightarrow>
        (\<exists>i. groupID (grp r) p = Some (int i) \<and> groupID (grp r) q = Some (int i))) \<and>
     (\<forall>p \<in> set (sources d). (\<forall>g \<in> set (concat (close_sources_by_frame r)). p \<notin> set g) \<longrightarrow>
        groupID (grp r) p = Some (- 1))"
proof -
  define cs where "cs = concat (map close_frame (sources_by_frame d))"
  have cl: "close_detect (sources_by_frame d) = (cs, map close_frame (sources_by_frame d))"
    by (simp add: close_detect_eq cs_def)
  have ne: "\<forall>g \<in> set cs. g \<noteq> []" using close_frame_nonempty by (auto simp: cs_def)
  from group_ok[OF ne] obtain groups where g: "group cs = Inr groups" and part: "partition_of cs groups"
    by blast
  from part have gne: "\<forall>i < length groups. groups ! i \<noteq> []"
    and gin: "\<forall>i < length groups. set (groups ! i) \<subseteq> \<Union>(set ` set cs)"
    and gdj: "\<forall>i < length groups. \<forall>j < length groups. \<forall>m. m \<in> set (groups ! i) \<and> m \<in> set (groups ! j) \<longrightarrow> i = j"
    and gcl: "\<And>p q. (p, q) \<in> (co_occur cs)\<^sup>+ \<Longrightarrow> \<exists>i < length groups. p \<in> set (groups ! i) \<and> q \<in> set (groups ! i)"
    unfolding partition_of_def by blast+
  define r where "r = \<lparr>det = d, close_sources = cs,
     close_sources_by_frame = map close_frame (sources_by_frame d),
     grp = \<lparr>groups = groups, groupID = IDassign groups (sources d),
            n_detections = get_num_detections (sources d)\<rparr>\<rparr>"
  have run: "pipeline rnd t gs frs = Inr r"
    using d g by (simp add: pipeline_def group_and_id_def bind_def cl r_def)
  have csr: "concat (close_sources_by_frame r) = cs" by (simp add: r_def cs_def)
  have gid: "groupID (grp r) = IDassign groups (sources d)" by (simp add: r_def)
  have detected: "p \<in> set (sources d)" if "g \<in> set cs" "p \<in> set g" for p g
    using close_sources_detected[OF d, of g] that by (auto simp: cl)
  have same: "\<exists>i. groupID (grp r) p = Some (int i) \<and> groupID (grp r) q = Some (int i)"
    if "(p, q) \<in> (co_occur cs)\<^sup>+" for p q
  proof -
    from gcl[OF that] obtain i where i: "i < length groups" "p \<in> set (groups ! i)"
      "q \<in> set (groups ! i)" by blast
    from trancl_ends[OF that] detected have "p \<in> set (sources d)" "q \<in> set (sources d)"
      by blast+
    with position_to_id_member[OF gne gdj i(1) i(2)] position_to_id_member[OF gne gdj i(1) i(3)]
    show ?thesis by (intro exI[of _ i]) (simp add: gid IDassign_apply)
  qed
  have lone: "groupID (grp r) p = Some (- 1)"
    if "p \<in> set (sources d)" "\<forall>g \<in> set cs. p \<notin> set g" for p
  proof -
    have "\<forall>g \<in> set groups. p \<notin> set g"
    proof
      fix g assume "g \<in> set groups"
      then obtain i where "i < length groups" "g = groups ! i" by (auto simp: in_set_conv_nth)
      with gin that(2) show "p \<notin> set g" by blast
    qed
    from position_to_id_outside[OF gne gdj this] that(1) show ?thesis
      by (simp add: gid IDassign_apply)
  qed
  have "det r = d" "close_sources_by_frame r = map close_frame (sources_by_frame d)"
    by (simp_all add: r_def)
  with run same lone show ?thesis unfolding csr[symmetric] by (intro exI[of _ r]) blast
qed

text \<open>
  C1. Whenever \<^verbatim>\<open>detect\<close> returns, the rest of the pipeline (\<^verbatim>\<open>close_detect\<close>, then
  \<^verbatim>\<open>group_and_id\<close>) returns too, and in its result: any two positions that are members of
  one close-group of some frame have the same \<^verbatim>\<open>groupID\<close>, which is a group index (not the
  value \<open>-1\<close> given to positions outside every close-group); and two detected positions
  with different \<^verbatim>\<open>groupID\<close> are not connected by any chain of co-memberships in
  close-groups, of one frame or of several.
\<close>

theorem groupID_closure_law:
  assumes "detect rnd threshold grid_size frs = Inr d"
  shows "\<exists>r. pipeline rnd threshold grid_size frs = Inr r \<and> det r = d \<and>
     (\<forall>s < length (close_sources_by_frame r). \<forall>g \<in> set (close_sources_by_frame r ! s).
        \<forall>p \<in> set g. \<forall>q \<in> set g.
          groupID (grp r) p = groupID (grp r) q \<and> (\<exists>i \<ge> 0. groupID (grp r) p = Some i)) \<and>
     (\<forall>p \<in> set (sources d). \<forall>q \<in> set (sources d).
        groupID (grp r) p \<noteq> groupID (grp r) q \<longrightarrow>
          (p, q) \<notin> (co_occur (concat (close_sources_by_frame r)))\<^sup>+) \<and>
     (\<forall>p \<in> set (sources d).
        groupID (grp r) p = Some (- 1) \<longleftrightarrow>
          (\<forall>g \<in> set (concat (close_sources_by_frame r)). p \<notin> set g))"
proof -
  from pipeline_group_ids[OF assms] obtain r where run: "pipeline rnd threshold grid_size frs = Inr r"
    and dr: "det r = d"
    and same: "\<And>p q. (p, q) \<in> (co_occur (concat (close_sources_by_frame r)))\<^sup>+ \<Longrightarrow>
        \<exists>i. groupID (grp r) p = Some (int i) \<and> groupID (grp r) q = Some (int i)"
    and lone: "\<And>p. p \<in> set (sources d) \<Longrightarrow>
        \<forall>g \<in> set (concat (close_sources_by_frame r)). p \<notin> set g \<Longrightarrow>
        groupID (grp r) p = Some (- 1)" by blast
  let ?cs = "concat (close_sources_by_frame r)"
  have direct: "(p, q) \<in> (co_occur ?cs)\<^sup>+" if "g \<in> set ?cs" "p \<in> set g" "q \<in> set g" for g p q
    using that unfolding co_occur_def by blast
  have one: "groupID (grp r) p = groupID (grp r) q \<and> (\<exists>i \<ge> 0. groupID (grp r) p = Some i)"
    if "s < length (close_sources_by_frame r)" "g \<in> set (close_sources_by_frame r ! s)"
      "p \<in> set g" "q \<in> set g" for s g p q
  proof -
    from that(1,2) have "g \<in> set ?cs" by (auto intro: nth_mem)
    from same[OF direct[OF this that(3,4)]] obtain i where
      "groupID (grp r) p = Some (int i)" "groupID (grp r) q = Some (int i)" by blast
    then show ?thesis by simp
  qed
  have two: "(p, q) \<notin> (co_occur ?cs)\<^sup>+" if "groupID (grp r) p \<noteq> groupID (grp r) q" for p q
    using same[of p q] that by auto
  have three: "groupID (grp r) p = Some (- 1) \<longleftrightarrow> (\<forall>g \<in> set ?cs. p \<notin> set g)"
    if "p \<in> set (sources d)" for p
  proof
    assume m: "groupID (grp r) p = Some (- 1)"
    show "\<forall>g \<in> set ?cs. p \<notin> set g"
    proof
      fix g assume g: "g \<in> set ?cs"
      show "p \<notin> set g"
      proof
        assume "p \<in> set g"
        from same[OF direct[OF g this this]] m show False by simp
      qed
    qed
  next
    assume "\<forall>g \<in> set ?cs. p \<notin> set g"
    with lone[OF that] show "groupID (grp r) p = Some (- 1)" by blast
  qed
  from run dr one two three show ?thesis by (intro exI[of _ r]) blast
qed

lemma edge_events:
  "0 < t \<Longrightarrow> t \<le> 0.95 \<Longrightarrow> frame_events (\<lambda>x. x) t 4 (star_image, edge_grid) =
     [\<lparr>pos = (10, 15), brighter = True, fsign = positive\<rparr>]"
  by (simp add: edge_grid_def frame_eval star_edge)

lemma detect_trio_edge_ok:
  "\<not> isl (detect (\<lambda>x. x) (1 / 2) 4 [(star_image, trio_grid), (star_image, edge_grid)])"
  by (simp add: trio_grid_def edge_grid_def detect_eval star_edge)

lemma close_trio_edge:
  "close_detect [[(10, 11), (10, 11), (13, 11)], [(10, 15)]] =
     ([[(10, 11), (13, 11)], [(10, 11), (10, 11), (13, 11)]],
      [[[(10, 11), (13, 11)], [(10, 11), (10, 11), (13, 11)]], []])"
  by (simp add: close_eval)

theorem groupID_closure_law_witness:
  "\<not> isl (pipeline (\<lambda>x. x) (1 / 2) 4 [(star_image, trio_grid), (star_image, edge_grid)]) \<and>
   close_sources_by_frame
     (projr (pipeline (\<lambda>x. x) (1 / 2) 4 [(star_image, trio_grid), (star_image, edge_grid)]))
     = [[[(10, 11), (13, 11)], [(10, 11), (10, 11), (13, 11)]], []] \<and>
   groupID (grp (projr (pipeline (\<lambda>x. x) (1 / 2) 4
       [(star_image, trio_grid), (star_image, edge_grid)]))) (10, 11)
     = groupID (grp (projr (pipeline (\<lambda>x. x) (1 / 2) 4
       [(star_image, trio_grid), (star_image, edge_grid)]))) (13, 11) \<and>
   groupID (grp (projr (pipeline (\<lambda>x. x) (1 / 2) 4
       [(star_image, trio_grid), (star_image, edge_grid)]))) (10, 11) \<noteq> Some (- 1) \<and>
   groupID (grp (projr (pipeline (\<lambda>x. x) (1 / 2) 4
       [(star_image, trio_grid), (star_image, edge_grid)]))) (10, 15) = Some (- 1) \<and>
   ((10, 11), (10, 15)) \<notin> (co_occur (concat (close_sources_by_frame
       (projr (pipeline (\<lambda>x. x) (1 / 2) 4
          [(star_image, trio_grid), (star_image, edge_grid)])))))\<^sup>+"
proof -
  let ?frs = "[(star_image, trio_grid), (star_image, edge_grid)]"
  let ?d = "projr (detect (\<lambda>x. x) (1 / 2) 4 ?frs)"
  have dd: "detect (\<lambda>x. x) (1 / 2) 4 ?frs = Inr ?d"
    using detect_trio_edge_ok by (rule not_isl_projr)
  from groupID_closure_law[OF dd] obtain r where
    run: "pipeline (\<lambda>x. x) (1 / 2) 4 ?frs = Inr r" and dr: "det r = ?d"
    and one: "\<forall>s < length (close_sources_by_frame r). \<forall>g \<in> set (close_sources_by_frame r ! s).
        \<forall>p \<in> set g. \<forall>q \<in> set g.
          groupID (grp r) p = groupID (grp r) q \<and> (\<exists>i \<ge> 0. groupID (grp r) p = Some i)"
    and two: "\<forall>p \<in> set (sources ?d). \<forall>q \<in> set (sources ?d).
        groupID (grp r) p \<noteq> groupID (grp r) q \<longrightarrow>
          (p, q) \<notin> (co_occur (concat (close_sources_by_frame r)))\<^sup>+"
    and three: "\<forall>p \<in> set (sources ?d).
        groupID (grp r) p = Some (- 1) \<longleftrightarrow>
          (\<forall>g \<in> set (concat (close_sources_by_frame r)). p \<notin> set g)" by blast
  have src: "sources ?d = [(10, 11), (13, 11), (10, 11), (10, 15)]"
    using detect_events(1)[OF dd] by (simp add: all_events_def trio_events edge_events)
  have sbf: "sources_by_frame ?d = [[(10, 11), (10, 11), (13, 11)], [(10, 15)]]"
    using detect_events(3)[OF dd] by (simp add: trio_events edge_events)
  have cs: "close_sources_by_frame r = [[[(10, 11), (13, 11)], [(10, 11), (10, 11), (13, 11)]], []]"
    using pipeline_Inr(3)[OF run] by (simp add: dr sbf close_trio_edge)
  have a: "groupID (grp r) (10, 11) = groupID (grp r) (13, 11) \<and>
           (\<exists>i \<ge> 0. groupID (grp r) (10, 11) = Some i)"
  proof -
    have l: "0 < length (close_sources_by_frame r)"
      and m: "[(10, 11), (13, 11)] \<in> set (close_sources_by_frame r ! 0)" by (simp_all add: cs)
    have p: "(10, 11) \<in> set [(10, 11), (13, 11) :: coord]"
      and q: "(13, 11) \<in> set [(10, 11), (13, 11) :: coord]" by simp_all
    from one[rule_format, OF l m p q] show ?thesis .
  qed
  then obtain i where "0 \<le> i" "groupID (grp r) (10, 11) = Some i" by blast
  then have b: "groupID (grp r) (10, 11) \<noteq> Some (- 1)" by simp
  have c: "groupID (grp r) (10, 15) = Some (- 1)"
    using three[rule_format, of "(10, 15)"] by (simp add: src cs)
  from b c have "groupID (grp r) (10, 11) \<noteq> groupID (grp r) (10, 15)" by simp
  with two[rule_format, of "(10, 11)" "(10, 15)"]
  have e: "((10, 11), (10, 15)) \<notin> (co_occur (concat (close_sources_by_frame r)))\<^sup>+"
    by (simp add: src)
  have "projr (pipeline (\<lambda>x. x) (1 / 2) 4 ?frs) = r" "\<not> isl (pipeline (\<lambda>x. x) (1 / 2) 4 ?frs)"
    by (simp_all add: run)
  with a b c e cs show ?thesis by (simp only: simp_thms)
qed

subsection \<open>The float formats are roundings\<close>

lemma round_half_even_range:
  "\<lfloor>y\<rfloor> \<le> round_half_even y \<and> round_half_even y \<le> \<lfloor>y\<rfloor> + 1"
  by (simp add: round_half_even_def Let_def)

lemma round_half_even_int: "round_half_even (real_of_int n) = n"
  by (simp add: round_half_even_def)

lemma round_half_even_mono:
  assumes "y \<le> y'"
  shows "round_half_even y \<le> round_half_even y'"
proof (cases "\<lfloor>y\<rfloor> = \<lfloor>y'\<rfloor>")
  case True
  with assms show ?thesis by (auto simp: round_half_even_def Let_def)
next
  case False
  with assms have "\<lfloor>y\<rfloor> + 1 \<le> \<lfloor>y'\<rfloor>" using floor_mono[OF assms] by linarith
  with round_half_even_range[of y] round_half_even_range[of y'] show ?thesis by linarith
qed

lemma round_half_even_neg: "round_half_even (- y) = - round_half_even y"
proof (cases "y = real_of_int \<lfloor>y\<rfloor>")
  case True
  then obtain n where "y = real_of_int n" by blast
  then have "- y = real_of_int (- n)" by simp
  with \<open>y = real_of_int n\<close> show ?thesis by (simp only: round_half_even_int)
next
  case False
  then have lt: "real_of_int \<lfloor>y\<rfloor> < y" using of_int_floor_le[of y] by linarith
  have "\<lfloor>- y\<rfloor> = - \<lfloor>y\<rfloor> - 1"
  proof (rule floor_unique)
    show "real_of_int (- \<lfloor>y\<rfloor> - 1) \<le> - y" by (simp, linarith)
    show "- y < real_of_int (- \<lfloor>y\<rfloor> - 1) + 1" using lt by simp
  qed
  then show ?thesis
    using lt by (auto simp: round_half_even_def Let_def)
qed

lemma ulp_neg: "ulp prec (- x) = ulp prec x"
  by (simp add: ulp_def)

lemma binary_round_neg: "binary_round prec (- x) = - binary_round prec x"
  by (simp add: binary_round_def ulp_neg round_half_even_neg)

lemma log2_bracket:
  assumes "0 < x"
  shows "2 powr real_of_int \<lfloor>log 2 x\<rfloor> \<le> x"
    and "x < 2 powr (real_of_int \<lfloor>log 2 x\<rfloor> + 1)"
proof -
  have x: "2 powr log 2 x = x" using assms by simp
  have "real_of_int \<lfloor>log 2 x\<rfloor> \<le> log 2 x" by simp
  then have "2 powr real_of_int \<lfloor>log 2 x\<rfloor> \<le> 2 powr log 2 x"
    by (intro powr_mono) simp_all
  with x show "2 powr real_of_int \<lfloor>log 2 x\<rfloor> \<le> x" by simp
  have "log 2 x < real_of_int \<lfloor>log 2 x\<rfloor> + 1" by linarith
  then have "2 powr log 2 x < 2 powr (real_of_int \<lfloor>log 2 x\<rfloor> + 1)"
    by (intro powr_less_mono) simp_all
  with x show "x < 2 powr (real_of_int \<lfloor>log 2 x\<rfloor> + 1)" by simp
qed

lemma ulp_scale:
  assumes "0 < prec"
  shows "ulp prec x * 2 ^ (prec - 1) = 2 powr real_of_int \<lfloor>log 2 \<bar>x\<bar>\<rfloor>"
    and "ulp prec x * 2 ^ prec = 2 powr (real_of_int \<lfloor>log 2 \<bar>x\<bar>\<rfloor> + 1)"
proof -
  have a: "(2 :: real) ^ (prec - 1) = 2 powr (real prec - 1)"
    using assms powr_realpow[of 2 "prec - 1"] by (simp add: of_nat_diff)
  have b: "(2 :: real) ^ prec = 2 powr real prec"
    using powr_realpow[of 2 prec] by simp
  show "ulp prec x * 2 ^ (prec - 1) = 2 powr real_of_int \<lfloor>log 2 \<bar>x\<bar>\<rfloor>"
    unfolding ulp_def a by (simp add: powr_add[symmetric])
  show "ulp prec x * 2 ^ prec = 2 powr (real_of_int \<lfloor>log 2 \<bar>x\<bar>\<rfloor> + 1)"
    unfolding ulp_def b by (simp add: powr_add[symmetric])
qed

lemma scaled_range:
  assumes x: "0 < x" and p: "0 < prec"
  shows "2 ^ (prec - 1) \<le> x / ulp prec x" and "x / ulp prec x < 2 ^ prec"
proof -
  have u: "0 < ulp prec x" by (rule ulp_pos)
  from x have ax: "\<bar>x\<bar> = x" by simp
  from log2_bracket(1)[OF x] ulp_scale(1)[OF p, of x] ax
  have "ulp prec x * 2 ^ (prec - 1) \<le> x" by simp
  with u show "2 ^ (prec - 1) \<le> x / ulp prec x" by (simp add: pos_le_divide_eq mult.commute)
  from log2_bracket(2)[OF x] ulp_scale(2)[OF p, of x] ax
  have "x < ulp prec x * 2 ^ prec" by simp
  with u show "x / ulp prec x < 2 ^ prec" by (simp add: pos_divide_less_eq mult.commute)
qed

lemma binary_round_range:
  assumes x: "0 < x" and p: "0 < prec"
  shows "2 powr real_of_int \<lfloor>log 2 x\<rfloor> \<le> binary_round prec x"
    and "binary_round prec x \<le> 2 powr (real_of_int \<lfloor>log 2 x\<rfloor> + 1)"
proof -
  have u: "0 < ulp prec x" by (rule ulp_pos)
  from x have ax: "\<bar>x\<bar> = x" by simp
  have br: "binary_round prec x = ulp prec x * real_of_int (round_half_even (x / ulp prec x))"
    using x by (simp add: binary_round_def)
  have "round_half_even (real_of_int (2 ^ (prec - 1))) \<le> round_half_even (x / ulp prec x)"
    by (rule round_half_even_mono) (use scaled_range(1)[OF x p] in simp)
  then have lo: "(2 :: real) ^ (prec - 1) \<le> real_of_int (round_half_even (x / ulp prec x))"
    unfolding round_half_even_int by (metis of_int_le_iff of_int_numeral of_int_power)
  have "round_half_even (x / ulp prec x) \<le> round_half_even (real_of_int (2 ^ prec))"
    by (rule round_half_even_mono) (use scaled_range(2)[OF x p] in simp)
  then have hi: "real_of_int (round_half_even (x / ulp prec x)) \<le> (2 :: real) ^ prec"
    unfolding round_half_even_int by (metis of_int_le_iff of_int_numeral of_int_power)
  from lo u have "ulp prec x * 2 ^ (prec - 1) \<le> binary_round prec x"
    unfolding br by (simp add: mult_left_mono)
  with ulp_scale(1)[OF p, of x] ax show "2 powr real_of_int \<lfloor>log 2 x\<rfloor> \<le> binary_round prec x"
    by simp
  from hi u have "binary_round prec x \<le> ulp prec x * 2 ^ prec"
    unfolding br by (simp add: mult_left_mono)
  with ulp_scale(2)[OF p, of x] ax
  show "binary_round prec x \<le> 2 powr (real_of_int \<lfloor>log 2 x\<rfloor> + 1)" by simp
qed

lemma binary_round_mono_pos:
  assumes x: "0 < x" and xy: "x \<le> y" and p: "0 < prec"
  shows "binary_round prec x \<le> binary_round prec y"
proof -
  from x xy have y: "0 < y" by simp
  have le: "\<lfloor>log 2 x\<rfloor> \<le> \<lfloor>log 2 y\<rfloor>"
    using x xy by (intro floor_mono) simp
  show ?thesis
  proof (cases "\<lfloor>log 2 x\<rfloor> = \<lfloor>log 2 y\<rfloor>")
    case True
    with x y have u: "ulp prec x = ulp prec y" by (simp add: ulp_def)
    have "x / ulp prec y \<le> y / ulp prec y"
      using xy ulp_pos[of prec y] by (simp add: divide_right_mono)
    from round_half_even_mono[OF this] ulp_pos[of prec y] x y show ?thesis
      by (simp add: binary_round_def u mult_left_mono)
  next
    case False
    with le have "real_of_int \<lfloor>log 2 x\<rfloor> + 1 \<le> real_of_int \<lfloor>log 2 y\<rfloor>" by linarith
    then have "2 powr (real_of_int \<lfloor>log 2 x\<rfloor> + 1) \<le> 2 powr real_of_int \<lfloor>log 2 y\<rfloor>"
      by (intro powr_mono) simp_all
    with binary_round_range(2)[OF x p] binary_round_range(1)[OF y p] show ?thesis by linarith
  qed
qed

lemma binary_round_nonneg: "0 < prec \<Longrightarrow> 0 \<le> x \<Longrightarrow> 0 \<le> binary_round prec x"
proof (cases "x = 0")
  case True
  then show ?thesis by (simp add: binary_round_def)
next
  case False
  assume "0 < prec" "0 \<le> x"
  with False have "0 < x" by simp
  from binary_round_range(1)[OF this \<open>0 < prec\<close>] show ?thesis
    by (meson order_trans powr_ge_zero)
qed

lemma binary_round_mono:
  assumes p: "0 < prec" and xy: "x \<le> y"
  shows "binary_round prec x \<le> binary_round prec y"
proof -
  consider "0 < x" | "x \<le> 0" "0 \<le> y" | "y < 0" by linarith
  then show ?thesis
  proof cases
    case 1
    then show ?thesis by (rule binary_round_mono_pos[OF _ xy p])
  next
    case 2
    from binary_round_nonneg[OF p, of "- x"] 2(1) have "binary_round prec x \<le> 0"
      by (simp add: binary_round_neg)
    with binary_round_nonneg[OF p 2(2)] show ?thesis by linarith
  next
    case 3
    with xy have "0 < - y" "- y \<le> - x" by simp_all
    from binary_round_mono_pos[OF this p] show ?thesis by (simp add: binary_round_neg)
  qed
qed

lemma binary_round_exact_scaled:
  assumes "x \<noteq> 0" and "x / ulp prec x = real_of_int k"
  shows "binary_round prec x = x"
proof -
  have "binary_round prec x = ulp prec x * (x / ulp prec x)"
    using assms(1) by (simp add: binary_round_def assms(2) round_half_even_int)
  also have "\<dots> = x" using ulp_pos[of prec x] by simp
  finally show ?thesis .
qed

lemma binary_round_nat_exact:
  assumes n: "0 < n" "n \<le> 2 ^ 24" and p: "24 \<le> prec"
  shows "binary_round prec (real_of_int n) = real_of_int n"
proof -
  let ?x = "real_of_int n"
  let ?e = "\<lfloor>log 2 ?x\<rfloor>"
  from n have x: "0 < ?x" and x1: "1 \<le> ?x" by simp_all
  have ax: "\<bar>?x\<bar> = ?x" using x by simp
  from x1 have "0 \<le> log 2 ?x" by simp
  then have e0: "0 \<le> ?e" by simp
  have "?x \<le> 2 powr 24" using n(2) by (simp add: of_int_le_numeral_power_cancel_iff)
  then have "log 2 ?x \<le> 24" using x by (simp add: log_le_iff)
  then have e24: "?e \<le> 24" by (simp add: floor_le_iff)
  show ?thesis
  proof (cases "?e \<le> int prec - 1")
    case True
    define m where "m = nat (int prec - 1 - ?e)"
    from True have m: "real m = real prec - 1 - real_of_int ?e" by (simp add: m_def)
    have "?x / ulp prec ?x = ?x * 2 powr (real m)"
      unfolding ulp_def ax m by (simp add: powr_diff powr_add field_simps)
    also have "\<dots> = ?x * 2 ^ m" using powr_realpow[of 2 m] by simp
    also have "\<dots> = real_of_int (n * 2 ^ m)" by simp
    finally show ?thesis using x by (intro binary_round_exact_scaled[of _ _ "n * 2 ^ m"]) simp_all
  next
    case False
    with e24 p have e: "?e = 24" and pr: "prec = 24" by linarith+
    from log2_bracket(1)[OF x] e have "2 powr 24 \<le> ?x" by simp
    with n(2) have n24: "n = 2 ^ 24" by (simp add: numeral_power_le_of_int_cancel_iff)
    have "ulp prec ?x = 2" unfolding ulp_def ax e pr by simp
    then have "?x / ulp prec ?x = real_of_int (2 ^ 23)" by (simp add: n24)
    with x show ?thesis by (intro binary_round_exact_scaled[of _ _ "2 ^ 23"]) simp_all
  qed
qed

lemma binary_round_int_exact:
  assumes n: "\<bar>n\<bar> \<le> 2 ^ 24" and p: "24 \<le> prec"
  shows "binary_round prec (real_of_int n) = real_of_int n"
proof -
  consider "n = 0" | "0 < n" | "n < 0" by linarith
  then show ?thesis
  proof cases
    case 1
    then show ?thesis by (simp add: binary_round_def)
  next
    case 2
    with n have "n \<le> 2 ^ 24" by simp
    from binary_round_nat_exact[OF 2 this p] show ?thesis .
  next
    case 3
    with n have "0 < - n" "- n \<le> 2 ^ 24" by simp_all
    from binary_round_nat_exact[OF this p] have "binary_round prec (- real_of_int n) = - real_of_int n"
      by simp
    then show ?thesis by (simp add: binary_round_neg)
  qed
qed

text \<open>
  The roundings of float32 and of float64 are roundings in the sense of \<open>float_rounding\<close>:
  what is proved for every such rounding holds for the two formats.
\<close>

lemma float_rounding_binary_round: "24 \<le> prec \<Longrightarrow> float_rounding (binary_round prec)"
  unfolding float_rounding_def
  by (intro conjI allI impI binary_round_mono binary_round_int_exact) simp_all

lemma float_rounding_float32: "float_rounding (binary_round 24)"
  by (rule float_rounding_binary_round) simp

lemma float_rounding_float64: "float_rounding (binary_round 53)"
  by (rule float_rounding_binary_round) simp

subsection \<open>The threshold is compared after rounding\<close>

lemma floor_log2:
  assumes "2 powr real_of_int e \<le> x" and "x < 2 powr (real_of_int e + 1)" and "0 < x"
  shows "\<lfloor>log 2 x\<rfloor> = e"
proof -
  from assms(1,3) have lo: "real_of_int e \<le> log 2 x" by (subst le_log_iff) simp_all
  from assms(2,3) have hi: "log 2 x < real_of_int e + 1" by (subst log_less_iff) simp_all
  from lo hi show ?thesis by (simp add: floor_eq_iff)
qed

lemma binary_round_dyadic:
  assumes lo: "2 ^ a \<le> x" and hi: "x < 2 ^ Suc a" and a: "a < prec"
    and k: "x * 2 ^ (prec - 1 - a) = real_of_int k"
  shows "binary_round prec x = x"
proof -
  from lo have x: "0 < x" by (meson less_le_trans zero_less_numeral zero_less_power)
  have "2 powr real_of_int (int a) \<le> x" using lo by (simp add: powr_realpow)
  moreover have "x < 2 powr (real_of_int (int a) + 1)"
    using hi powr_realpow[of 2 "Suc a"] by (simp add: add.commute)
  ultimately have e: "\<lfloor>log 2 x\<rfloor> = int a" using x by (rule floor_log2)
  have m: "real (prec - 1 - a) = real prec - 1 - real a" using a by (simp add: of_nat_diff)
  have "real_of_int (int a) - real prec + 1 = - real (prec - 1 - a)" unfolding m by simp
  then have "ulp prec x = 2 powr (- real (prec - 1 - a))"
    using x by (simp only: ulp_def e abs_of_pos)
  also have "\<dots> = 1 / 2 ^ (prec - 1 - a)"
    by (simp add: powr_minus powr_realpow inverse_eq_divide)
  finally have u: "ulp prec x = 1 / 2 ^ (prec - 1 - a)" .
  have "x / ulp prec x = real_of_int k" unfolding u using k by simp
  with x show ?thesis by (intro binary_round_exact_scaled[of _ _ k]) simp_all
qed

lemma float32_values:
  "binary_round 24 8 = 8" "binary_round 24 (23 / 2) = 23 / 2" "binary_round 24 (21 / 2) = 21 / 2"
proof -
  show "binary_round 24 8 = 8"
    by (rule binary_round_dyadic[of 3 _ _ "2 ^ 23"]) simp_all
  show "binary_round 24 (23 / 2) = 23 / 2"
    by (rule binary_round_dyadic[of 3 _ _ "23 * 2 ^ 19"]) simp_all
  show "binary_round 24 (21 / 2) = 21 / 2"
    by (rule binary_round_dyadic[of 3 _ _ "21 * 2 ^ 19"]) simp_all
qed

text \<open>As a float32 the threshold is \<open>1/2\<close>.\<close>

lemma float32_threshold: "binary_round 24 above_half = 1 / 2"
proof -
  let ?x = "1 / 2 + 1 / 2 ^ 30 :: real"
  have "\<lfloor>log 2 ?x\<rfloor> = - 1"
    by (rule floor_log2) (simp_all add: powr_minus)
  then have u: "ulp 24 ?x = 1 / 2 ^ 24"
    by (simp add: ulp_def powr_minus powr_numeral inverse_eq_divide)
  have q: "?x / (1 / 2 ^ 24) = 2 ^ 23 + 1 / 64" by simp
  have fl: "\<lfloor>2 ^ 23 + 1 / 64 :: real\<rfloor> = 2 ^ 23" by (simp add: floor_eq_iff)
  have "round_half_even (2 ^ 23 + 1 / 64) = 2 ^ 23"
    unfolding round_half_even_def Let_def fl by simp
  then show ?thesis unfolding above_half_def binary_round_def u q by simp
qed

lemma half_A:
  "process_cell (binary_round 24) above_half 4 star_image (star_grid half_cell q b) 2 2
     = Inr (Some \<lparr>pos = (10, 11), brighter = True, fsign = positive\<rparr>)"
  unfolding process_cell_def float32_threshold
  by (simp add: predicted_def star_grid_def half_cell_def star_image_def float32_values
        clamp_done py_int_def filters_def filter_a_def filter_b_def filter_c_def filter_d_def
        py_and_def bind_def getitem_def np_index_def window_def slice_def slice_norm_def
        np_min_def np_max_def np_abs_def np_where_def refine_def Let_def)

lemma half_events:
  "frame_events (binary_round 24) above_half 4 (star_image, half_grid) =
     [\<lparr>pos = (10, 11), brighter = True, fsign = positive\<rparr>]"
  by (simp add: half_grid_def frame_events_def cell_order_def star_grid_sel upt_0_4 half_A
        zero_reject float32_threshold)

lemma detect_half_ok: "\<not> isl (detect (binary_round 24) above_half 4 [(star_image, half_grid)])"
  by (simp add: half_grid_def detect_def detect_frame_def cell_order_def star_grid_sel upt_0_4
        half_A zero_reject float32_threshold bind_def init_state_def record_detection_def)

text \<open>
  C4, as the claim states it, fails when the threshold is not a float of the format of the
  network output: with float32 outputs, a cell of probability \<open>1/2\<close> is below the
  threshold \<open>1/2 + 2\<^sup>-\<^sup>3\<^sup>0\<close> and yet it is detected, at \<open>(10, 11)\<close>, because the comparison is
  made with the threshold rounded to float32, which is \<open>1/2\<close>.
\<close>

theorem detection_below_threshold_counterexample:
  "above_half = 1 / 2 + 1 / 2 ^ 30 \<and>
   prob (gcell half_grid 2 2) = 1 / 2 \<and>
   prob (gcell half_grid 2 2) < above_half \<and>
   process_cell (binary_round 24) above_half 4 star_image half_grid 2 2
     = Inr (Some \<lparr>pos = (10, 11), brighter = True, fsign = positive\<rparr>) \<and>
   \<not> isl (detect (binary_round 24) above_half 4 [(star_image, half_grid)]) \<and>
   sources (projr (detect (binary_round 24) above_half 4 [(star_image, half_grid)])) = [(10, 11)]"
proof -
  have p: "prob (gcell half_grid 2 2) = 1 / 2"
    by (simp add: half_grid_def star_grid_sel half_cell_def)
  have lt: "prob (gcell half_grid 2 2) < above_half" unfolding p above_half_def by simp
  have c: "process_cell (binary_round 24) above_half 4 star_image half_grid 2 2
     = Inr (Some \<lparr>pos = (10, 11), brighter = True, fsign = positive\<rparr>)"
    unfolding half_grid_def by (rule half_A)
  have s: "sources (projr (detect (binary_round 24) above_half 4 [(star_image, half_grid)]))
             = [(10, 11)]"
    using detect_events(1)[OF not_isl_projr[OF detect_half_ok]]
    by (simp add: all_events_def half_events)
  from p lt c s detect_half_ok above_half_def show ?thesis by blast
qed

end
